theory Spec2Isabelle
  imports Main "HOL-Library.Word" "HOL-Library.Log_Nat" "HOL-Library.AList" "HOL-Library.Sublist"
begin

unbundle bit_operations_syntax

section \<open>Machine types\<close>

text \<open>
  The cache of madbfs (\<^verbatim>\<open>data/cache.hpp\<close>, \<^verbatim>\<open>data/cache.cpp\<close>) on a 64-bit host:
  \<^verbatim>\<open>usize\<close> is a 64-bit unsigned integer, \<^verbatim>\<open>u32\<close> a 32-bit one, and \<^verbatim>\<open>off_t\<close> a signed
  64-bit integer that the cache only ever converts to and from \<^verbatim>\<open>usize\<close> with
  \<^verbatim>\<open>static_cast\<close>, which keeps the bits; it is therefore carried as a 64-bit word.
  \<^verbatim>\<open>Id\<close> is the opaque file identifier of \<^verbatim>\<open>data/stat.hpp\<close>, \<^verbatim>\<open>Errc\<close> is \<^verbatim>\<open>std::errc\<close>
  (an enumeration over \<^verbatim>\<open>int\<close>, whose value-initialised member \<^verbatim>\<open>Errc{}\<close> is 0 and means
  success).
\<close>

type_synonym usize = "64 word"
type_synonym u32 = "32 word"
type_synonym off_t = "64 word"
type_synonym byte = "8 word"
type_synonym Id = nat
type_synonym Errc = int

section \<open>Page\<close>

datatype PageKey = PageKey (key_id: Id) (key_index: usize)

record Page =
  m_key :: PageKey
  m_data :: "byte list"
  m_size :: u32

definition dirty_bit :: u32 where
  "dirty_bit = 0x10000000"

text \<open>
  \<^verbatim>\<open>std::copy_n(src + from, n, dst + to)\<close> on two buffers given by their contents. A copy
  that leaves either buffer is undefined behaviour in C++ and is \<open>None\<close> here; a copy of
  zero elements touches nothing.
\<close>

definition copy_n :: "byte list \<Rightarrow> nat \<Rightarrow> nat \<Rightarrow> byte list \<Rightarrow> nat \<Rightarrow> byte list option" where
  "copy_n src from n dst to =
     (if n = 0 then Some dst
      else if from + n \<le> length src \<and> to + n \<le> length dst
      then Some (take to dst @ take n (drop from src) @ drop (to + n) dst)
      else None)"

text \<open>
  \<^verbatim>\<open>Page::read(out, offset)\<close>: the subtraction is done in \<^verbatim>\<open>usize\<close> and wraps. The result
  is the number of bytes copied and the new contents of \<^verbatim>\<open>out\<close>.
\<close>

definition Page_read :: "Page \<Rightarrow> byte list \<Rightarrow> usize \<Rightarrow> (usize \<times> byte list) option" where
  "Page_read p out offset =
     (let size = min (ucast (m_size p AND NOT dirty_bit) - offset) (of_nat (length out))
      in map_option (\<lambda>out'. (size, out')) (copy_n (m_data p) (unat offset) (unat size) out 0))"

text \<open>
  \<^verbatim>\<open>Page::write(in, offset)\<close>: \<^verbatim>\<open>m_size = static_cast<u32>(size) | (m_size & dirty_bit)\<close>.
  The result is the number of bytes written and the page afterwards.
\<close>

definition Page_write :: "Page \<Rightarrow> byte list \<Rightarrow> usize \<Rightarrow> (usize \<times> Page) option" where
  "Page_write p inp offset =
     (let size = offset + of_nat (length inp)
      in map_option
           (\<lambda>d. (of_nat (length inp),
                 p\<lparr>m_data := d, m_size := ucast size OR (m_size p AND dirty_bit)\<rparr>))
           (copy_n inp 0 (length inp) (m_data p) (unat offset)))"

definition Page_size :: "Page \<Rightarrow> usize" where
  "Page_size p = ucast (m_size p AND NOT dirty_bit)"

definition Page_is_dirty :: "Page \<Rightarrow> bool" where
  "Page_is_dirty p = (m_size p AND dirty_bit \<noteq> 0)"

definition Page_set_dirty :: "Page \<Rightarrow> bool \<Rightarrow> Page" where
  "Page_set_dirty p set_it =
     (if set_it then p\<lparr>m_size := m_size p OR dirty_bit\<rparr>
      else p\<lparr>m_size := m_size p AND NOT dirty_bit\<rparr>)"

section \<open>Cache state\<close>

text \<open>
  \<^verbatim>\<open>std::list<Page>\<close> is a list of nodes; an iterator names a node and stays valid while
  the node lives, also across \<^verbatim>\<open>splice\<close>. A node is a pair of its address and the page it
  holds, \<^verbatim>\<open>m_lru\<close> and \<^verbatim>\<open>m_orphaned\<close> are lists of nodes (front first), and the lookup
  table \<^verbatim>\<open>m_table\<close> maps a key to the address of a node. The two
  \<^verbatim>\<open>std::unordered_map\<close>s are association lists with the map's operations
  (\<open>map_of\<close> for \<^verbatim>\<open>find\<close>, \<open>emplace\<close>, \<open>AList.delete\<close> for \<^verbatim>\<open>erase\<close>, \<open>length\<close> for
  \<^verbatim>\<open>size\<close>).

  \<^verbatim>\<open>m_queue\<close> holds a \<^verbatim>\<open>saf::shared_future<Errc>\<close> per key that is being fetched; the
  future is either not yet resolved or resolved with an error code.
\<close>

type_synonym node = nat

datatype future = Unresolved | Resolved Errc

record Cache =
  m_lru :: "(node \<times> Page) list"
  m_table :: "(PageKey \<times> node) list"
  m_queue :: "(PageKey \<times> future) list"
  m_orphaned :: "(node \<times> Page) list"
  m_page_size :: usize
  m_max_pages :: usize

definition emplace :: "'k \<Rightarrow> 'v \<Rightarrow> ('k \<times> 'v) list \<Rightarrow> ('k \<times> 'v) list" where
  "emplace k v t = (if map_of t k = None then (k, v) # t else t)"

text \<open>
  \<^verbatim>\<open>std::bit_ceil\<close>: the smallest power of two that is not smaller than \<open>x\<close>; undefined
  (\<open>None\<close>) when that power is not representable. libstdc++ computes it as
  \<^verbatim>\<open>1 << (64 - countl_zero(x - 1))\<close>, and \<open>floorlog 2 n\<close> is the bit width of \<open>n\<close>.
\<close>

definition bit_ceil :: "usize \<Rightarrow> usize option" where
  "bit_ceil x =
     (if x \<le> 1 then Some 1
      else let e = floorlog 2 (unat (x - 1))
           in if e < 64 then Some (push_bit e 1) else None)"

text \<open>\<^verbatim>\<open>std::has_single_bit\<close>: \<open>x\<close> is a power of two.\<close>

definition has_single_bit :: "usize \<Rightarrow> bool" where
  "has_single_bit x = (x \<noteq> 0 \<and> x AND (x - 1) = 0)"

definition Cache_new :: "usize \<Rightarrow> usize \<Rightarrow> Cache option" where
  "Cache_new page_size max_pages =
     map_option
       (\<lambda>p. \<lparr>m_lru = [], m_table = [], m_queue = [], m_orphaned = [],
             m_page_size = p, m_max_pages = max_pages\<rparr>)
       (bit_ceil page_size)"

definition Cache_page_size :: "Cache \<Rightarrow> usize" where
  "Cache_page_size c = m_page_size c"

definition Cache_max_pages :: "Cache \<Rightarrow> usize" where
  "Cache_max_pages c = m_max_pages c"

text \<open>\<^verbatim>\<open>get_orphan_pages\<close> moves \<^verbatim>\<open>m_orphaned\<close> out, which leaves it empty.\<close>

definition Cache_get_orphan_pages :: "Cache \<Rightarrow> (node \<times> Page) list \<times> Cache" where
  "Cache_get_orphan_pages c = (m_orphaned c, c\<lparr>m_orphaned := []\<rparr>)"

definition Cache_has_orphan_pages :: "Cache \<Rightarrow> bool" where
  "Cache_has_orphan_pages c = (m_orphaned c \<noteq> [])"

definition Cache_invalidate :: "Cache \<Rightarrow> Cache" where
  "Cache_invalidate c = c\<lparr>m_table := [], m_lru := []\<rparr>"

definition Cache_set_page_size :: "Cache \<Rightarrow> usize \<Rightarrow> Cache" where
  "Cache_set_page_size c new_page_size =
     c\<lparr>m_page_size := new_page_size, m_table := [], m_lru := []\<rparr>"

definition Cache_set_max_pages :: "Cache \<Rightarrow> usize \<Rightarrow> Cache" where
  "Cache_set_max_pages c new_max_pages =
     c\<lparr>m_max_pages := new_max_pages, m_table := [], m_lru := []\<rparr>"

section \<open>Splitting a request into pages\<close>

text \<open>
  \<^verbatim>\<open>std::views::iota(first, bound)\<close> over \<^verbatim>\<open>usize\<close> counts up from \<open>first\<close> until the value
  equals \<open>bound\<close>, wrapping around if it has to: \<open>unat (bound - first)\<close> values.
\<close>

definition iota :: "usize \<Rightarrow> usize \<Rightarrow> usize list" where
  "iota first bound = map (\<lambda>k. first + of_nat k) [0..<unat (bound - first)]"

text \<open>
  The first lines of \<^verbatim>\<open>Cache::read\<close> and \<^verbatim>\<open>Cache::write\<close>:
  \<^verbatim>\<open>start = offset / m_page_size\<close>, \<^verbatim>\<open>last = (offset + size - 1) / m_page_size\<close> and the
  loop over \<^verbatim>\<open>iota(start, last + 1)\<close>.
\<close>

definition start_index :: "usize \<Rightarrow> off_t \<Rightarrow> usize" where
  "start_index P offset = offset div P"

definition last_index :: "usize \<Rightarrow> off_t \<Rightarrow> usize \<Rightarrow> usize" where
  "last_index P offset len = (offset + len - 1) div P"

definition page_indices :: "usize \<Rightarrow> off_t \<Rightarrow> usize \<Rightarrow> usize list" where
  "page_indices P offset len = iota (start_index P offset) (last_index P offset len + 1)"

section \<open>Cache operations\<close>

text \<open>
  The coroutines \<^verbatim>\<open>read\<close>, \<^verbatim>\<open>write\<close> and \<^verbatim>\<open>flush\<close> are modelled as one task running
  alone on the executor: the callbacks do not touch the cache and no other task runs
  while one is awaited. An operation has three ways to stop: it returns a value, it
  returns an error (\<^verbatim>\<open>Unexpect\<close>), or it suspends on the shared future of a fetch that
  only another task can complete. Undefined behaviour (a dangling iterator, a copy
  outside a buffer, \<^verbatim>\<open>back()\<close> of an empty list, a division by zero) is \<open>None\<close>.
\<close>

datatype 'a result = Value 'a | Failure Errc | Suspended PageKey

text \<open>
  A callback is a function of its arguments. \<^verbatim>\<open>on_miss(out, offset)\<close> is given the size
  of the span \<^verbatim>\<open>out\<close> and the offset and answers with an error or with the bytes it
  stored from the start of the span and the length it reports;
  \<^verbatim>\<open>on_flush(in, offset)\<close> is given the bytes and the offset. Each operation also returns
  the list of the calls it made, in order.
\<close>

type_synonym OnMiss = "usize \<Rightarrow> off_t \<Rightarrow> Errc + (byte list \<times> usize)"
type_synonym OnFlush = "byte list \<Rightarrow> off_t \<Rightarrow> Errc + usize"

text \<open>Storing bytes from the start of a span never changes the size of the buffer.\<close>

definition span_store :: "byte list \<Rightarrow> byte list \<Rightarrow> byte list" where
  "span_store buf bytes = take (length buf) bytes @ drop (length bytes) buf"

text \<open>
  The head of every loop body: \<^verbatim>\<open>m_queue.find(key)\<close>, \<^verbatim>\<open>co_await fut.async_wait()\<close> and
  the test of \<^verbatim>\<open>fut.get()\<close>.
\<close>

definition queued :: "Cache \<Rightarrow> PageKey \<Rightarrow> unit result" where
  "queued c key =
     (case map_of (m_queue c) key of
        None \<Rightarrow> Value ()
      | Some Unresolved \<Rightarrow> Suspended key
      | Some (Resolved err) \<Rightarrow> if err \<noteq> 0 then Failure err else Value ())"

text \<open>The address of a newly allocated list node: one that no live node has.\<close>

definition new_node :: "Cache \<Rightarrow> node" where
  "new_node c = Suc (fold max (map fst (m_lru c @ m_orphaned c)) 0)"

text \<open>
  \<^verbatim>\<open>if (page != m_lru.begin()) m_lru.splice(m_lru.begin(), m_lru, page)\<close>; the iterator
  has to name a node of \<^verbatim>\<open>m_lru\<close>.
\<close>

definition touch :: "node \<Rightarrow> (node \<times> Page) list \<Rightarrow> (node \<times> Page) list option" where
  "touch h lru =
     (case map_of lru h of
        None \<Rightarrow> None
      | Some page \<Rightarrow> Some (if fst (hd lru) = h then lru else (h, page) # AList.delete h lru))"

text \<open>
  The eviction loop \<^verbatim>\<open>while (delta-- > 0)\<close> that \<^verbatim>\<open>read\<close> and \<^verbatim>\<open>write\<close> both contain, and
  the test \<^verbatim>\<open>m_table.size() > m_max_pages\<close> around it.
\<close>

fun evict :: "nat \<Rightarrow> Cache \<Rightarrow> Cache option" where
  "evict 0 c = Some c"
| "evict (Suc delta) c =
     (if m_lru c = [] then None
      else let (h, page) = last (m_lru c);
               c1 = c\<lparr>m_table := AList.delete (m_key page) (m_table c)\<rparr>
           in evict delta
                (if Page_is_dirty page
                 then c1\<lparr>m_orphaned := m_orphaned c1 @ [(h, page)], m_lru := butlast (m_lru c1)\<rparr>
                 else c1\<lparr>m_lru := butlast (m_lru c1)\<rparr>))"

definition admit :: "Cache \<Rightarrow> Cache option" where
  "admit c =
     (if length (m_table c) > unat (m_max_pages c)
      then evict (length (m_table c) - unat (m_max_pages c)) c
      else Some c)"

subsection \<open>read\<close>

text \<open>
  Lines 99 to 104 of \<^verbatim>\<open>cache.cpp\<close>: the fetched page goes to the front of \<^verbatim>\<open>m_lru\<close> and
  into \<^verbatim>\<open>m_table\<close>, the promise is resolved and the queue entry erased. The length is
  narrowed to \<^verbatim>\<open>u32\<close> by the constructor of \<^verbatim>\<open>Page\<close>.
\<close>

definition install :: "Cache \<Rightarrow> PageKey \<Rightarrow> byte list \<Rightarrow> usize \<Rightarrow> Cache" where
  "install c key data len =
     (let h = new_node c
      in c\<lparr>m_lru := (h, \<lparr>m_key = key, m_data = data, m_size = ucast len\<rparr>) # m_lru c,
           m_table := emplace key h (m_table c),
           m_queue := AList.delete key (m_queue c)\<rparr>)"

text \<open>Lines 119 to 131: touch the page and copy from it into the rest of \<^verbatim>\<open>out\<close>.\<close>

definition read_from_page ::
  "Cache \<Rightarrow> node \<Rightarrow> usize \<Rightarrow> byte list \<Rightarrow> usize \<Rightarrow> (Cache \<times> byte list \<times> usize) option" where
  "read_from_page c h local_offset out total_read =
     (case touch h (m_lru c) of
        None \<Rightarrow> None
      | Some lru \<Rightarrow>
          (case map_of lru h of
             None \<Rightarrow> None
           | Some page \<Rightarrow>
               (case Page_read page (drop (unat total_read) out) local_offset of
                  None \<Rightarrow> None
                | Some (n, out_sub) \<Rightarrow>
                    Some (c\<lparr>m_lru := lru\<rparr>, take (unat total_read) out @ out_sub,
                          total_read + n))))"

type_synonym read_state = "Cache \<times> byte list \<times> usize \<times> off_t list"

text \<open>
  One turn of the loop of \<^verbatim>\<open>Cache::read\<close>. The state is the cache, the contents of
  \<^verbatim>\<open>out\<close>, \<^verbatim>\<open>total_read\<close> and the offsets \<^verbatim>\<open>on_miss\<close> was called with. After the admission
  the code dereferences the table iterator \<^verbatim>\<open>entry\<close>, which is dangling when the entry
  was erased.
\<close>

definition read_page ::
  "OnMiss \<Rightarrow> Id \<Rightarrow> off_t \<Rightarrow> usize \<Rightarrow> usize \<Rightarrow> read_state \<Rightarrow> (unit result \<times> read_state) option" where
  "read_page on_miss id' offset start index st =
     (case st of (c, out, total_read, misses) \<Rightarrow>
        let key = PageKey id' index;
            P = m_page_size c;
            local_offset = (if index = start then offset mod P else 0);
            copy = (\<lambda>c h ms. map_option (\<lambda>(c', out', total'). (Value (), c', out', total', ms))
                                (read_from_page c h local_offset out total_read))
        in case queued c key of
             Failure err \<Rightarrow> Some (Failure err, st)
           | Suspended k \<Rightarrow> Some (Suspended k, st)
           | Value _ \<Rightarrow>
               (case map_of (m_table c) key of
                  Some h \<Rightarrow> copy c h misses
                | None \<Rightarrow>
                    let c1 = c\<lparr>m_queue := emplace key Unresolved (m_queue c)\<rparr>;
                        off = index * P
                    in case on_miss P off of
                         Inl err \<Rightarrow>
                           Some (Failure err,
                                 c1\<lparr>m_queue := AList.delete key (m_queue c1)\<rparr>, out, total_read,
                                 misses @ [off])
                       | Inr (bytes, len) \<Rightarrow>
                           (case admit (install c1 key (span_store (replicate (unat P) 0) bytes) len) of
                              None \<Rightarrow> None
                            | Some c2 \<Rightarrow>
                                (case map_of (m_table c2) key of
                                   None \<Rightarrow> None
                                 | Some h \<Rightarrow> copy c2 h (misses @ [off])))))"

fun read_loop ::
  "OnMiss \<Rightarrow> Id \<Rightarrow> off_t \<Rightarrow> usize \<Rightarrow> usize list \<Rightarrow> read_state \<Rightarrow> (usize result \<times> read_state) option" where
  "read_loop on_miss id' offset start [] st = Some (Value (fst (snd (snd st))), st)"
| "read_loop on_miss id' offset start (index # rest) st =
     (case read_page on_miss id' offset start index st of
        None \<Rightarrow> None
      | Some (Value _, st') \<Rightarrow> read_loop on_miss id' offset start rest st'
      | Some (Failure err, st') \<Rightarrow> Some (Failure err, st')
      | Some (Suspended k, st') \<Rightarrow> Some (Suspended k, st'))"

definition Cache_read ::
  "Cache \<Rightarrow> Id \<Rightarrow> byte list \<Rightarrow> off_t \<Rightarrow> OnMiss \<Rightarrow> (usize result \<times> read_state) option" where
  "Cache_read c id' out offset on_miss =
     (let P = m_page_size c
      in if P = 0 then None
         else read_loop on_miss id' offset (start_index P offset)
                (page_indices P offset (of_nat (length out))) (c, out, 0, []))"

subsection \<open>write\<close>

type_synonym write_state = "Cache \<times> usize"

text \<open>
  One turn of the loop of \<^verbatim>\<open>Cache::write\<close>; the state is the cache and
  \<^verbatim>\<open>total_written\<close>. The span \<^verbatim>\<open>write_span\<close> has to lie inside \<^verbatim>\<open>in\<close>.
\<close>

definition write_page ::
  "Id \<Rightarrow> byte list \<Rightarrow> off_t \<Rightarrow> usize \<Rightarrow> usize \<Rightarrow> write_state \<Rightarrow> (unit result \<times> write_state) option" where
  "write_page id' inp offset start index st =
     (case st of (c, total_written) \<Rightarrow>
        let key = PageKey id' index;
            P = m_page_size c
        in case queued c key of
             Failure err \<Rightarrow> Some (Failure err, st)
           | Suspended k \<Rightarrow> Some (Suspended k, st)
           | Value _ \<Rightarrow>
               let (c1, h) =
                     (case map_of (m_table c) key of
                        Some h \<Rightarrow> (c, h)
                      | None \<Rightarrow>
                          let h = new_node c
                          in (c\<lparr>m_lru := (h, \<lparr>m_key = key, m_data = replicate (unat P) 0,
                                              m_size = 0\<rparr>) # m_lru c,
                                m_table := emplace key h (m_table c)\<rparr>, h));
                   local_offset = (if index = start then offset mod P else 0);
                   write = min (P - local_offset) (of_nat (length inp) - total_written);
                   write_span = take (unat write) (drop (unat total_written) inp)
               in if length write_span \<noteq> unat write then None
                  else case map_of (m_lru c1) h of
                         None \<Rightarrow> None
                       | Some page \<Rightarrow>
                           (case Page_write page write_span local_offset of
                              None \<Rightarrow> None
                            | Some (_, page') \<Rightarrow>
                                (case touch h (AList.update h (Page_set_dirty page' True) (m_lru c1)) of
                                   None \<Rightarrow> None
                                 | Some lru \<Rightarrow>
                                     map_option (\<lambda>c2. (Value (), c2, total_written + write))
                                       (admit (c1\<lparr>m_lru := lru\<rparr>)))))"

fun write_loop ::
  "Id \<Rightarrow> byte list \<Rightarrow> off_t \<Rightarrow> usize \<Rightarrow> usize list \<Rightarrow> write_state \<Rightarrow> (usize result \<times> write_state) option" where
  "write_loop id' inp offset start [] st = Some (Value (snd st), st)"
| "write_loop id' inp offset start (index # rest) st =
     (case write_page id' inp offset start index st of
        None \<Rightarrow> None
      | Some (Value _, st') \<Rightarrow> write_loop id' inp offset start rest st'
      | Some (Failure err, st') \<Rightarrow> Some (Failure err, st')
      | Some (Suspended k, st') \<Rightarrow> Some (Suspended k, st'))"

definition Cache_write ::
  "Cache \<Rightarrow> Id \<Rightarrow> byte list \<Rightarrow> off_t \<Rightarrow> (usize result \<times> write_state) option" where
  "Cache_write c id' inp offset =
     (let P = m_page_size c
      in if P = 0 then None
         else write_loop id' inp offset (start_index P offset)
                (page_indices P offset (of_nat (length inp))) (c, 0))"

subsection \<open>flush\<close>

type_synonym flush_state = "Cache \<times> (PageKey \<times> byte list \<times> off_t) list"

text \<open>
  One turn of the loop of \<^verbatim>\<open>Cache::flush\<close>; the state is the cache and the calls of
  \<^verbatim>\<open>on_flush\<close> made so far, each with the key of the page it was made for. The scratch
  vector \<^verbatim>\<open>data\<close> is resized to the page size; only the bytes that \<^verbatim>\<open>Page::read\<close> has
  just stored in it are passed on, so its earlier contents do not matter.
\<close>

definition flush_page ::
  "OnFlush \<Rightarrow> Id \<Rightarrow> usize \<Rightarrow> flush_state \<Rightarrow> (unit result \<times> flush_state) option" where
  "flush_page on_flush id' index st =
     (case st of (c, flushed) \<Rightarrow>
        let key = PageKey id' index;
            P = m_page_size c
        in case queued c key of
             Failure err \<Rightarrow> Some (Failure err, st)
           | Suspended k \<Rightarrow> Some (Suspended k, st)
           | Value _ \<Rightarrow>
               (case map_of (m_table c) key of
                  None \<Rightarrow> Some (Value (), st)
                | Some h \<Rightarrow>
                    (case map_of (m_lru c) h of
                       None \<Rightarrow> None
                     | Some page \<Rightarrow>
                         if Page_is_dirty page
                         then (case Page_read page (replicate (unat P) 0) 0 of
                                 None \<Rightarrow> None
                               | Some (n, data) \<Rightarrow>
                                   let c1 = c\<lparr>m_lru := AList.update h (Page_set_dirty page False)
                                                         (m_lru c)\<rparr>;
                                       read_span = take (unat n) data;
                                       off = index * P;
                                       st1 = (c1, flushed @ [(key, read_span, off)])
                                   in case on_flush read_span off of
                                        Inl err \<Rightarrow> Some (Failure err, st1)
                                      | Inr _ \<Rightarrow> Some (Value (), st1))
                         else Some (Value (), st))))"

fun flush_loop ::
  "OnFlush \<Rightarrow> Id \<Rightarrow> usize list \<Rightarrow> flush_state \<Rightarrow> (unit result \<times> flush_state) option" where
  "flush_loop on_flush id' [] st = Some (Value (), st)"
| "flush_loop on_flush id' (index # rest) st =
     (case flush_page on_flush id' index st of
        None \<Rightarrow> None
      | Some (Value _, st') \<Rightarrow> flush_loop on_flush id' rest st'
      | Some (Failure err, st') \<Rightarrow> Some (Failure err, st')
      | Some (Suspended k, st') \<Rightarrow> Some (Suspended k, st'))"

definition Cache_flush ::
  "Cache \<Rightarrow> Id \<Rightarrow> usize \<Rightarrow> OnFlush \<Rightarrow> (unit result \<times> flush_state) option" where
  "Cache_flush c id' sz on_flush =
     (let P = m_page_size c
      in if P = 0 then None
         else let num_pages = sz div P + (if sz mod P \<noteq> 0 then 1 else 0)
              in flush_loop on_flush id' (iota 0 num_pages) (c, []))"

text \<open>The page that the table and the list hold for a key.\<close>

definition resident :: "Cache \<Rightarrow> PageKey \<Rightarrow> Page option" where
  "resident c key =
     (case map_of (m_table c) key of None \<Rightarrow> None | Some h \<Rightarrow> map_of (m_lru c) h)"

section \<open>Well-formed states and runs\<close>

text \<open>
  In every state the code reaches, the lookup table is the index of the list: no two
  nodes share an address, no two table entries share a key, and the table holds exactly
  one entry, key and address, for every node of \<^verbatim>\<open>m_lru\<close>.
\<close>

definition cache_wf :: "Cache \<Rightarrow> bool" where
  "cache_wf c =
     (distinct (map fst (m_lru c)) \<and> distinct (map fst (m_table c))
      \<and> set (m_table c) = (\<lambda>(h, page). (m_key page, h)) ` set (m_lru c))"

text \<open>Every page in the orphan sink is dirty.\<close>

definition orphans_dirty :: "Cache \<Rightarrow> bool" where
  "orphans_dirty c = list_all (\<lambda>(h, page). Page_is_dirty page) (m_orphaned c)"

text \<open>The operations of the public interface that change the cache, and the state they leave.\<close>

datatype operation =
    Read Id "byte list" off_t OnMiss
  | Write Id "byte list" off_t
  | Flush Id usize OnFlush
  | GetOrphanPages
  | Invalidate
  | SetPageSize usize
  | SetMaxPages usize

fun run :: "operation \<Rightarrow> Cache \<Rightarrow> Cache option" where
  "run (Read id' out offset on_miss) c = map_option (\<lambda>(r, c', rest). c') (Cache_read c id' out offset on_miss)"
| "run (Write id' inp offset) c = map_option (\<lambda>(r, c', total). c') (Cache_write c id' inp offset)"
| "run (Flush id' sz on_flush) c = map_option (\<lambda>(r, c', flushed). c') (Cache_flush c id' sz on_flush)"
| "run GetOrphanPages c = Some (snd (Cache_get_orphan_pages c))"
| "run Invalidate c = Some (Cache_invalidate c)"
| "run (SetPageSize new_page_size) c = Some (Cache_set_page_size c new_page_size)"
| "run (SetMaxPages new_max_pages) c = Some (Cache_set_max_pages c new_max_pages)"

text \<open>Every resident page owns a buffer of the current page size.\<close>

definition buffers_sized :: "Cache \<Rightarrow> bool" where
  "buffers_sized c =
     list_all (\<lambda>(h, page). length (m_data page) = unat (m_page_size c)) (m_lru c)"

text \<open>
  A request of \<open>n\<close> bytes at \<open>off\<close> under page size \<open>P\<close>, in natural numbers:
  the bytes of the request that lie before page \<open>j\<close>, and the offset inside page \<open>j\<close> at
  which the request's part of that page starts.
\<close>

definition bytes_before :: "nat \<Rightarrow> nat \<Rightarrow> nat \<Rightarrow> nat \<Rightarrow> nat" where
  "bytes_before P off n j = min (max (j * P) off) (off + n) - off"

definition page_offset :: "nat \<Rightarrow> nat \<Rightarrow> nat \<Rightarrow> nat" where
  "page_offset P off j = max (j * P) off - j * P"

text \<open>
  Page \<open>j\<close> holds its part of the request \<open>src\<close> at \<open>off\<close>: its buffer has the page size, its
  length ends where the part ends, and the part's bytes are in the buffer.
\<close>

definition holds_slice :: "nat \<Rightarrow> nat \<Rightarrow> byte list \<Rightarrow> nat \<Rightarrow> Page \<Rightarrow> bool" where
  "holds_slice P off src j page =
     (let lo = page_offset P off j;
          a = bytes_before P off (length src) j;
          w = bytes_before P off (length src) (Suc j) - a
      in length (m_data page) = P \<and> unat (Page_size page) = lo + w
         \<and> take w (drop lo (m_data page)) = take w (drop a src))"

text \<open>
  The front of the list after the pages \<open>s\<close> up to \<open>j - 1\<close> of file \<open>id'\<close> have been
  written: the pages written, the latest first, each holding its part.
\<close>

definition written_front ::
  "Id \<Rightarrow> nat \<Rightarrow> nat \<Rightarrow> byte list \<Rightarrow> nat \<Rightarrow> nat \<Rightarrow> (node \<times> Page) list \<Rightarrow> bool" where
  "written_front id' P off src s j front =
     list_all2
       (\<lambda>(h, page) i. m_key page = PageKey id' (of_nat i) \<and> holds_slice P off src i page)
       front (rev [s..<j])"

text \<open>Callbacks of a device that answers every call the same way.\<close>

definition fetch_ok :: "byte list \<Rightarrow> OnMiss" where
  "fetch_ok bytes sz off = Inr (bytes, of_nat (length bytes))"

definition fetch_fail :: "Errc \<Rightarrow> OnMiss" where
  "fetch_fail err sz off = Inl err"

definition push_ok :: OnFlush where
  "push_ok bytes off = Inr (of_nat (length bytes))"

definition push_fail :: "Errc \<Rightarrow> OnFlush" where
  "push_fail err bytes off = Inl err"

subsection \<open>What a flush owes its pages\<close>

text \<open>
  What \<^verbatim>\<open>flush\<close> owes page \<open>index\<close> of file \<open>id'\<close> in state \<open>c\<close>: whether the page is resident
  and dirty, and the call of \<^verbatim>\<open>on_flush\<close> it then gets (the key it is made for, the bytes of
  the page up to its length, and the offset \<open>index * m_page_size\<close>). \<open>flush_pages\<close> lists
  the pages of a flush of \<open>sz\<close> bytes that are owed a call, in the order of the loop.
\<close>

definition flush_pending :: "Cache \<Rightarrow> Id \<Rightarrow> usize \<Rightarrow> bool" where
  "flush_pending c id' index =
     (case resident c (PageKey id' index) of None \<Rightarrow> False | Some page \<Rightarrow> Page_is_dirty page)"

definition flush_call :: "Cache \<Rightarrow> Id \<Rightarrow> usize \<Rightarrow> PageKey \<times> byte list \<times> off_t" where
  "flush_call c id' index =
     (PageKey id' index,
      (case resident c (PageKey id' index) of
         None \<Rightarrow> []
       | Some page \<Rightarrow> take (unat (Page_size page)) (m_data page)),
      index * m_page_size c)"

definition flush_pages :: "Cache \<Rightarrow> Id \<Rightarrow> usize \<Rightarrow> usize list" where
  "flush_pages c id' sz =
     filter (flush_pending c id')
       (iota 0 (sz div m_page_size c + (if sz mod m_page_size c \<noteq> 0 then 1 else 0)))"

text \<open>The answer of \<^verbatim>\<open>on_flush\<close> to a call, and whether it is an error.\<close>

definition answer :: "OnFlush \<Rightarrow> PageKey \<times> byte list \<times> off_t \<Rightarrow> Errc + usize" where
  "answer on_flush call = (case call of (key, bytes, off) \<Rightarrow> on_flush bytes off)"

definition fails :: "OnFlush \<Rightarrow> PageKey \<times> byte list \<times> off_t \<Rightarrow> bool" where
  "fails on_flush call = (case answer on_flush call of Inl err \<Rightarrow> True | Inr n \<Rightarrow> False)"

text \<open>The pages with the keys \<open>keys\<close> marked clean, every other page as it is.\<close>

definition cleaned :: "PageKey set \<Rightarrow> Cache \<Rightarrow> PageKey \<Rightarrow> Page option" where
  "cleaned keys c key =
     (if key \<in> keys then map_option (\<lambda>page. Page_set_dirty page False) (resident c key)
      else resident c key)"

text \<open>A device that fails at one offset and accepts the bytes anywhere else.\<close>

definition push_fail_at :: "off_t \<Rightarrow> Errc \<Rightarrow> OnFlush" where
  "push_fail_at bad err bytes off = (if off = bad then Inl err else Inr (of_nat (length bytes)))"

section \<open>Pages\<close>

lemma bit_dirty_bit: "bit dirty_bit n \<longleftrightarrow> n = 28"
proof -
  have h: "dirty_bit = push_bit 28 1" by (simp add: dirty_bit_def)
  show ?thesis by (simp only: h bit_push_bit_iff bit_1_iff) auto
qed

lemma bit_small:
  fixes x :: usize
  assumes "unat x < 2 ^ 28" "bit x n"
  shows "n < 28"
proof (rule ccontr)
  assume "\<not> n < 28"
  then have "(2::nat) ^ 28 \<le> 2 ^ n" using power_increasing[of 28 n "2::nat"] by simp
  with assms(1) have "unat x div 2 ^ n = 0" by simp
  then have "\<not> bit (unat x) n" by (simp add: bit_iff_odd)
  with assms(2) show False by (simp add: bit_unsigned_iff)
qed

lemma ucast_small_length:
  fixes x :: usize
  assumes "unat x < 2 ^ 28"
  shows "ucast (((ucast x :: u32) OR (m AND dirty_bit)) AND NOT dirty_bit) = x"
  by (rule bit_word_eqI)
    (use bit_small[OF assms] in \<open>force simp add: bit_simps bit_dirty_bit\<close>)

lemma dirty_after_write:
  fixes x :: usize
  assumes "unat x < 2 ^ 28"
  shows "(((ucast x :: u32) OR (m AND dirty_bit)) AND dirty_bit) = m AND dirty_bit"
  by (rule bit_word_eqI)
    (use bit_small[OF assms] in \<open>force simp add: bit_simps bit_dirty_bit\<close>)

lemma copy_n_Some:
  assumes "from + n \<le> length src" "to + n \<le> length dst"
  shows "copy_n src from n dst to = Some (take to dst @ take n (drop from src) @ drop (to + n) dst)"
  using assms by (simp add: copy_n_def)

lemma Page_write_effect:
  assumes "unat offset + length src \<le> length (m_data p)"
    and "unat offset + length src < 2 ^ 28"
  shows "\<exists>p'. Page_write p src offset = Some (of_nat (length src), p')
           \<and> m_key p' = m_key p
           \<and> length (m_data p') = length (m_data p)
           \<and> take (length src) (drop (unat offset) (m_data p')) = src
           \<and> take (unat offset) (m_data p') = take (unat offset) (m_data p)
           \<and> drop (unat offset + length src) (m_data p') = drop (unat offset + length src) (m_data p)
           \<and> unat (Page_size p') = unat offset + length src
           \<and> Page_is_dirty p' = Page_is_dirty p"
proof -
  define x :: usize where "x = offset + of_nat (length src)"
  define d where "d = take (unat offset) (m_data p) @ src @ drop (unat offset + length src) (m_data p)"
  define p' where "p' = p\<lparr>m_data := d, m_size := ucast x OR (m_size p AND dirty_bit)\<rparr>"
  have ux: "unat x = unat offset + length src"
    using assms(2) by (simp add: x_def unat_word_ariths unat_of_nat)
  then have small: "unat x < 2 ^ 28" using assms(2) by simp
  have "copy_n src 0 (length src) (m_data p) (unat offset) = Some d"
    using assms(1) by (simp add: copy_n_Some d_def)
  then have w: "Page_write p src offset = Some (of_nat (length src), p')"
    by (simp add: Page_write_def Let_def p'_def x_def)
  have "Page_size p' = x"
    by (simp add: Page_size_def p'_def ucast_small_length[OF small])
  then have sz: "unat (Page_size p') = unat offset + length src" using ux by simp
  have dirty: "Page_is_dirty p' = Page_is_dirty p"
    by (simp add: Page_is_dirty_def p'_def dirty_after_write[OF small])
  have k: "m_key p' = m_key p" by (simp add: p'_def)
  have len: "length (m_data p') = length (m_data p)"
    using assms(1) by (simp add: p'_def d_def)
  have d1: "take (length src) (drop (unat offset) (m_data p')) = src"
    using assms(1) by (simp add: p'_def d_def)
  have d2: "take (unat offset) (m_data p') = take (unat offset) (m_data p)"
    using assms(1) by (simp add: p'_def d_def)
  have d3: "drop (unat offset + length src) (m_data p') = drop (unat offset + length src) (m_data p)"
    using assms(1) by (simp add: p'_def d_def)
  show ?thesis using w sz dirty d1 d2 d3 k len by blast
qed

text \<open>
  C3 (as amended). \<^verbatim>\<open>Page::write(src, offset)\<close> with \<open>offset + |src|\<close> inside the buffer
  and below \<open>2 ^ 28\<close> copies all of \<open>src\<close> into the buffer at \<open>offset\<close>, leaves the rest
  of the buffer alone, sets the length to \<open>offset + |src|\<close> whatever it was before, and
  leaves the dirty flag as it was.
\<close>

theorem Page_write_sets_length:
  assumes "unat offset + length src \<le> length (m_data p)"
    and "unat offset + length src < 2 ^ 28"
  shows "\<exists>p'. Page_write p src offset = Some (of_nat (length src), p')
           \<and> take (length src) (drop (unat offset) (m_data p')) = src
           \<and> take (unat offset) (m_data p') = take (unat offset) (m_data p)
           \<and> drop (unat offset + length src) (m_data p') = drop (unat offset + length src) (m_data p)
           \<and> unat (Page_size p') = unat offset + length src
           \<and> Page_is_dirty p' = Page_is_dirty p"
  using Page_write_effect[OF assms] by blast

theorem Page_write_sets_length_witness:
  "unat (1 :: usize) + length [7, 8 :: byte]
     \<le> length (m_data \<lparr>m_key = PageKey 1 0, m_data = [1, 2, 3, 4], m_size = 4\<rparr>)
   \<and> unat (1 :: usize) + length [7, 8 :: byte] < 2 ^ 28
   \<and> (\<exists>p'. Page_write \<lparr>m_key = PageKey 1 0, m_data = [1, 2, 3, 4], m_size = 4\<rparr> [7, 8] 1
               = Some (of_nat (length [7, 8 :: byte]), p')
             \<and> take (length [7, 8 :: byte]) (drop (unat (1 :: usize)) (m_data p')) = [7, 8]
             \<and> take (unat (1 :: usize)) (m_data p') = [1]
             \<and> drop (unat (1 :: usize) + length [7, 8 :: byte]) (m_data p') = [4]
             \<and> unat (Page_size p') = unat (1 :: usize) + length [7, 8 :: byte]
             \<and> \<not> Page_is_dirty p')"
  using Page_write_sets_length
    [of 1 "[7, 8]" "\<lparr>m_key = PageKey 1 0, m_data = [1, 2, 3, 4], m_size = 4\<rparr>"]
  by (simp add: Page_is_dirty_def dirty_bit_def)

text \<open>
  C3 as stated fails: a page of length 4 that receives one byte at offset 0 has length
  1 afterwards, not \<open>max 4 1\<close>.
\<close>

theorem Page_write_length_not_max:
  "Page_write \<lparr>m_key = PageKey 1 0, m_data = [1, 2, 3, 4], m_size = 4\<rparr> [9] 0
     = Some (1, \<lparr>m_key = PageKey 1 0, m_data = [9, 2, 3, 4], m_size = 1\<rparr>)
   \<and> Page_size \<lparr>m_key = PageKey 1 0, m_data = [9, 2, 3, 4], m_size = 1\<rparr> = 1
   \<and> max (Page_size \<lparr>m_key = PageKey 1 0, m_data = [1, 2, 3, 4], m_size = 4\<rparr>)
         (0 + of_nat (length [9 :: byte])) = 4"
  by (simp add: Page_write_def copy_n_def Page_size_def dirty_bit_def)

lemma Page_read_effect:
  assumes dst: "length dst < 2 ^ 64"
    and len: "unat (Page_size p) \<le> length (m_data p)"
    and le: "offset \<le> Page_size p"
  shows "Page_read p dst offset =
              Some (of_nat (min (unat (Page_size p) - unat offset) (length dst)),
                    take (min (unat (Page_size p) - unat offset) (length dst))
                      (drop (unat offset) (m_data p))
                    @ drop (min (unat (Page_size p) - unat offset) (length dst)) dst)"
proof -
  have ud: "unat (of_nat (length dst) :: usize) = length dst"
    using dst by (simp add: unat_of_nat)
  define n where "n = min (unat (Page_size p) - unat offset) (length dst)"
  define sz :: usize where "sz = min (Page_size p - offset) (of_nat (length dst))"
  have "unat (Page_size p - offset) = unat (Page_size p) - unat offset"
    using le by (simp add: unat_sub)
  then have usz: "unat sz = n"
    using ud by (simp add: sz_def n_def min_def word_le_nat_alt)
  have "of_nat (unat sz) = sz" by simp
  then have sz: "sz = of_nat n" unfolding usz by simp
  have "unat offset \<le> unat (Page_size p)" using le by (simp add: word_le_nat_alt)
  then have "n = 0 \<or> unat offset + n \<le> length (m_data p) \<and> n \<le> length dst"
    using len by (auto simp add: n_def)
  then have "copy_n (m_data p) (unat offset) n dst 0
               = Some (take n (drop (unat offset) (m_data p)) @ drop n dst)"
    by (auto simp add: copy_n_def)
  then show ?thesis
    using usz sz unfolding n_def[symmetric]
    by (simp add: Page_read_def Let_def Page_size_def[symmetric] sz_def[symmetric])
qed

text \<open>
  C4 (as amended). For a page whose length lies inside its buffer,
  \<^verbatim>\<open>Page::read(dst, offset)\<close> with \<open>offset \<le> length\<close> copies exactly
  \<open>min (length - offset) |dst|\<close> bytes from the buffer at \<open>offset\<close> to the start of \<open>dst\<close>
  and returns that count. With \<open>offset > length\<close> the subtraction wraps around and the
  call copies and returns \<open>|dst|\<close> bytes whenever the buffer still holds that many from
  \<open>offset\<close>.
\<close>

theorem Page_read_count:
  assumes dst: "length dst < 2 ^ 64"
    and buf: "length (m_data p) < 2 ^ 64"
    and len: "unat (Page_size p) \<le> length (m_data p)"
  shows "(offset \<le> Page_size p \<longrightarrow>
            Page_read p dst offset =
              Some (of_nat (min (unat (Page_size p) - unat offset) (length dst)),
                    take (min (unat (Page_size p) - unat offset) (length dst))
                      (drop (unat offset) (m_data p))
                    @ drop (min (unat (Page_size p) - unat offset) (length dst)) dst))
       \<and> (Page_size p < offset \<and> unat offset + length dst \<le> length (m_data p) \<longrightarrow>
            Page_read p dst offset =
              Some (of_nat (length dst), take (length dst) (drop (unat offset) (m_data p))))"
proof (intro conjI impI)
  have ud: "unat (of_nat (length dst) :: usize) = length dst"
    using dst by (simp add: unat_of_nat)
  {
    assume le: "offset \<le> Page_size p"
    from Page_read_effect[OF dst len le]
    show "Page_read p dst offset =
              Some (of_nat (min (unat (Page_size p) - unat offset) (length dst)),
                    take (min (unat (Page_size p) - unat offset) (length dst))
                      (drop (unat offset) (m_data p))
                    @ drop (min (unat (Page_size p) - unat offset) (length dst)) dst)" .
  }
  {
    assume h: "Page_size p < offset \<and> unat offset + length dst \<le> length (m_data p)"
    define sz :: usize where "sz = min (Page_size p - offset) (of_nat (length dst))"
    have lt: "unat (Page_size p) < unat offset" using h by (simp add: word_less_nat_alt)
    have "unat (Page_size p - offset) = 2 ^ 64 + unat (Page_size p) - unat offset"
      using lt by (simp add: unat_sub_if')
    moreover have "length dst \<le> 2 ^ 64 - unat offset" using h buf by linarith
    ultimately have "unat (of_nat (length dst) :: usize) \<le> unat (Page_size p - offset)"
      using ud by simp
    then have "(of_nat (length dst) :: usize) \<le> Page_size p - offset"
      by (simp only: word_le_nat_alt)
    then have "sz = of_nat (length dst)"
      by (simp add: sz_def min_absorb2)
    moreover have "copy_n (m_data p) (unat offset) (length dst) dst 0
                 = Some (take (length dst) (drop (unat offset) (m_data p)))"
      using h by (auto simp add: copy_n_def)
    ultimately show "Page_read p dst offset =
              Some (of_nat (length dst), take (length dst) (drop (unat offset) (m_data p)))"
      using ud
      by (simp add: Page_read_def Let_def Page_size_def[symmetric] sz_def[symmetric])
  }
qed

theorem Page_read_count_witness:
  "length [0, 0, 0 :: byte] < 2 ^ 64
   \<and> length (m_data \<lparr>m_key = PageKey 1 0, m_data = [1, 2, 3, 4, 5, 6, 7, 8], m_size = 4\<rparr>)
       < 2 ^ 64
   \<and> unat (Page_size \<lparr>m_key = PageKey 1 0, m_data = [1, 2, 3, 4, 5, 6, 7, 8], m_size = 4\<rparr>)
       \<le> length (m_data \<lparr>m_key = PageKey 1 0, m_data = [1, 2, 3, 4, 5, 6, 7, 8], m_size = 4\<rparr>)
   \<and> (2 :: usize)
       \<le> Page_size \<lparr>m_key = PageKey 1 0, m_data = [1, 2, 3, 4, 5, 6, 7, 8], m_size = 4\<rparr>
   \<and> Page_read \<lparr>m_key = PageKey 1 0, m_data = [1, 2, 3, 4, 5, 6, 7, 8], m_size = 4\<rparr>
         [0, 0, 0] 2 = Some (2, [3, 4, 0])
   \<and> Page_size \<lparr>m_key = PageKey 1 0, m_data = [1, 2, 3, 4, 5, 6, 7, 8], m_size = 4\<rparr>
       < (5 :: usize)
   \<and> unat (5 :: usize) + length [0, 0, 0 :: byte]
       \<le> length (m_data \<lparr>m_key = PageKey 1 0, m_data = [1, 2, 3, 4, 5, 6, 7, 8], m_size = 4\<rparr>)
   \<and> Page_read \<lparr>m_key = PageKey 1 0, m_data = [1, 2, 3, 4, 5, 6, 7, 8], m_size = 4\<rparr>
         [0, 0, 0] 5 = Some (3, [6, 7, 8])"
  using Page_read_count
    [of "[0, 0, 0]" "\<lparr>m_key = PageKey 1 0, m_data = [1, 2, 3, 4, 5, 6, 7, 8], m_size = 4\<rparr>" 2]
    Page_read_count
    [of "[0, 0, 0]" "\<lparr>m_key = PageKey 1 0, m_data = [1, 2, 3, 4, 5, 6, 7, 8], m_size = 4\<rparr>" 5]
  by (simp add: Page_size_def dirty_bit_def)

text \<open>
  C4 as stated fails: reading three bytes at offset 5 from a page of length 2 yields three
  bytes, not none.
\<close>

theorem Page_read_past_length:
  "Page_read \<lparr>m_key = PageKey 1 0, m_data = [1, 2, 3, 4, 5, 6, 7, 8], m_size = 2\<rparr> [0, 0, 0] 5
     = Some (3, [6, 7, 8])
   \<and> Page_size \<lparr>m_key = PageKey 1 0, m_data = [1, 2, 3, 4, 5, 6, 7, 8], m_size = 2\<rparr> = 2"
  by (simp add: Page_read_def copy_n_def Page_size_def dirty_bit_def)


section \<open>Configuration\<close>

lemma has_single_bit_push_bit:
  assumes "e < 64"
  shows "has_single_bit (push_bit e 1)"
proof -
  have nz: "(push_bit e 1 :: usize) \<noteq> 0"
    using assms by (simp add: push_bit_eq_0_iff possible_bit_def)
  have "(push_bit e 1 :: usize) - 1 = mask e"
    by (simp add: mask_eq_exp_minus_1 push_bit_eq_mult)
  moreover have "(push_bit e 1 :: usize) AND mask e = 0"
    by (rule bit_word_eqI) (auto simp add: bit_simps)
  ultimately show ?thesis using nz by (simp add: has_single_bit_def)
qed

lemma bit_ceil_has_single_bit:
  assumes "bit_ceil x = Some y"
  shows "has_single_bit y"
proof (cases "x \<le> 1")
  case True
  then have "y = 1" using assms by (simp add: bit_ceil_def)
  then show ?thesis by (simp add: has_single_bit_def)
next
  case False
  then obtain e where "e < 64" "y = push_bit e 1"
    using assms by (auto simp add: bit_ceil_def Let_def split: if_splits)
  then show ?thesis using has_single_bit_push_bit by simp
qed

lemma bit_ceil_4096: "bit_ceil 4096 = Some 4096"
  by (simp add: bit_ceil_def compute_floorlog word_le_nat_alt)

lemma bit_ceil_defined:
  assumes "x \<le> 2 ^ 63"
  shows "\<exists>y. bit_ceil x = Some y"
proof (cases "x \<le> 1")
  case True
  then show ?thesis by (simp add: bit_ceil_def)
next
  case False
  then have "unat x \<ge> 1" by (simp add: word_le_nat_alt)
  have "unat x \<le> 2 ^ 63" using assms by (simp add: word_le_nat_alt)
  moreover have "unat (x - 1) = unat x - 1" using \<open>unat x \<ge> 1\<close>
    by (simp add: unat_sub word_le_nat_alt)
  ultimately have "unat (x - 1) < 2 ^ 63" using \<open>unat x \<ge> 1\<close> by simp
  then have "floorlog 2 (unat (x - 1)) \<le> 63"
    by (simp only: floorlog_le_iff) simp
  then show ?thesis using False by (simp add: bit_ceil_def Let_def)
qed

lemma Cache_new_power_of_two:
  assumes "Cache_new page_size max_pages = Some c"
  shows "has_single_bit (Cache_page_size c)"
  using assms bit_ceil_has_single_bit
  by (auto simp add: Cache_new_def Cache_page_size_def)

lemma Cache_new_defined:
  assumes "page_size \<le> 2 ^ 63"
  shows "\<exists>c. Cache_new page_size max_pages = Some c"
  using bit_ceil_defined[OF assms] by (auto simp add: Cache_new_def)

text \<open>
  C6 (as amended). \<^verbatim>\<open>set_page_size\<close> sets the page size and clears \<^verbatim>\<open>m_lru\<close> and
  \<^verbatim>\<open>m_table\<close>; \<^verbatim>\<open>m_queue\<close>, \<^verbatim>\<open>m_orphaned\<close> and the page budget stay as they were.
  \<^verbatim>\<open>set_max_pages\<close> sets the page budget, and clears and keeps the same structures.
\<close>

theorem set_page_size_keeps_queue_and_orphans:
  "Cache_page_size (Cache_set_page_size c new_P) = new_P
   \<and> m_lru (Cache_set_page_size c new_P) = []
   \<and> m_table (Cache_set_page_size c new_P) = []
   \<and> m_queue (Cache_set_page_size c new_P) = m_queue c
   \<and> m_orphaned (Cache_set_page_size c new_P) = m_orphaned c
   \<and> Cache_max_pages (Cache_set_page_size c new_P) = Cache_max_pages c
   \<and> Cache_max_pages (Cache_set_max_pages c new_M) = new_M
   \<and> m_lru (Cache_set_max_pages c new_M) = []
   \<and> m_table (Cache_set_max_pages c new_M) = []
   \<and> m_queue (Cache_set_max_pages c new_M) = m_queue c
   \<and> m_orphaned (Cache_set_max_pages c new_M) = m_orphaned c
   \<and> Cache_page_size (Cache_set_max_pages c new_M) = Cache_page_size c"
  by (simp add: Cache_set_page_size_def Cache_set_max_pages_def Cache_page_size_def
      Cache_max_pages_def)

text \<open>
  C6 as stated fails: in a state with an evicted dirty page in \<^verbatim>\<open>m_orphaned\<close> and a fetch
  in flight in \<^verbatim>\<open>m_queue\<close>, both are still there after \<^verbatim>\<open>set_page_size\<close> and after
  \<^verbatim>\<open>set_max_pages\<close>.
\<close>

theorem set_page_size_orphans_remain:
  "m_orphaned
     (Cache_set_page_size
        \<lparr>m_lru = [(2, \<lparr>m_key = PageKey 1 1, m_data = [3, 4, 5, 6], m_size = 0x10000004\<rparr>)],
         m_table = [(PageKey 1 1, 2)],
         m_queue = [(PageKey 1 2, Unresolved)],
         m_orphaned = [(1, \<lparr>m_key = PageKey 1 0, m_data = [0, 0, 1, 2], m_size = 0x10000004\<rparr>)],
         m_page_size = 4, m_max_pages = 1\<rparr> 8)
     = [(1, \<lparr>m_key = PageKey 1 0, m_data = [0, 0, 1, 2], m_size = 0x10000004\<rparr>)]
   \<and> m_queue
     (Cache_set_page_size
        \<lparr>m_lru = [(2, \<lparr>m_key = PageKey 1 1, m_data = [3, 4, 5, 6], m_size = 0x10000004\<rparr>)],
         m_table = [(PageKey 1 1, 2)],
         m_queue = [(PageKey 1 2, Unresolved)],
         m_orphaned = [(1, \<lparr>m_key = PageKey 1 0, m_data = [0, 0, 1, 2], m_size = 0x10000004\<rparr>)],
         m_page_size = 4, m_max_pages = 1\<rparr> 8)
     = [(PageKey 1 2, Unresolved)]
   \<and> m_orphaned
     (Cache_set_max_pages
        \<lparr>m_lru = [(2, \<lparr>m_key = PageKey 1 1, m_data = [3, 4, 5, 6], m_size = 0x10000004\<rparr>)],
         m_table = [(PageKey 1 1, 2)],
         m_queue = [(PageKey 1 2, Unresolved)],
         m_orphaned = [(1, \<lparr>m_key = PageKey 1 0, m_data = [0, 0, 1, 2], m_size = 0x10000004\<rparr>)],
         m_page_size = 4, m_max_pages = 1\<rparr> 2)
     = [(1, \<lparr>m_key = PageKey 1 0, m_data = [0, 0, 1, 2], m_size = 0x10000004\<rparr>)]
   \<and> m_queue
     (Cache_set_max_pages
        \<lparr>m_lru = [(2, \<lparr>m_key = PageKey 1 1, m_data = [3, 4, 5, 6], m_size = 0x10000004\<rparr>)],
         m_table = [(PageKey 1 1, 2)],
         m_queue = [(PageKey 1 2, Unresolved)],
         m_orphaned = [(1, \<lparr>m_key = PageKey 1 0, m_data = [0, 0, 1, 2], m_size = 0x10000004\<rparr>)],
         m_page_size = 4, m_max_pages = 1\<rparr> 2)
     = [(PageKey 1 2, Unresolved)]"
  by (simp add: Cache_set_page_size_def Cache_set_max_pages_def)

text \<open>
  C7. The constructor rounds the page size up to a power of two, \<^verbatim>\<open>set_page_size\<close> stores
  its argument as it is: after \<^verbatim>\<open>Cache(4096, 4)\<close> and \<^verbatim>\<open>set_page_size(3)\<close> the page size is
  3, which is no power of two.
\<close>

theorem set_page_size_not_rounded:
  "Cache_new 4096 4
     = Some \<lparr>m_lru = [], m_table = [], m_queue = [], m_orphaned = [],
             m_page_size = 4096, m_max_pages = 4\<rparr>
   \<and> Cache_page_size
        (Cache_set_page_size
           \<lparr>m_lru = [], m_table = [], m_queue = [], m_orphaned = [],
            m_page_size = 4096, m_max_pages = 4\<rparr> 3) = 3
   \<and> \<not> has_single_bit 3"
  by (simp add: Cache_new_def bit_ceil_4096 Cache_set_page_size_def Cache_page_size_def has_single_bit_def)


section \<open>The pages of a request\<close>

lemma iota_no_wrap:
  assumes "unat first \<le> b" "b - unat first < 2 ^ 64"
  shows "iota first (of_nat b) = map of_nat [unat first..<b]"
proof -
  have "(of_nat b :: usize) - first = of_nat b - of_nat (unat first)" by simp
  also have "\<dots> = of_nat (b - unat first)" using assms(1) by (simp only: of_nat_diff)
  finally have "unat ((of_nat b :: usize) - first) = b - unat first"
    using assms(2) by (simp add: unat_of_nat)
  then have "iota first (of_nat b) = map (\<lambda>k. first + of_nat k) [0..<b - unat first]"
    by (simp add: iota_def)
  also have "\<dots> = map of_nat (map (\<lambda>k. k + unat first) [0..<b - unat first])"
    by simp
  also have "map (\<lambda>k. k + unat first) [0..<b - unat first] = [unat first..<b]"
    using assms(1) by (simp add: map_add_upt)
  finally show ?thesis .
qed

lemma unat_request_end:
  fixes offset :: off_t
  assumes "0 < n" "unat offset + n \<le> 2 ^ 64"
  shows "unat (offset + of_nat n - 1) = unat offset + n - 1"
proof -
  have "offset + of_nat n - 1 = of_nat (unat offset + n - 1)"
    using assms(1) by (simp add: of_nat_diff)
  moreover have "unat offset + n - 1 < 2 ^ 64" using assms by simp
  ultimately show ?thesis by (simp add: unat_of_nat)
qed


lemma page_indices_eq:
  assumes P: "P \<noteq> 0" and n0: "0 < n" and n64: "n < 2 ^ 64"
    and nov: "unat offset + n \<le> 2 ^ 64"
  shows "page_indices P offset (of_nat n)
           = map of_nat [unat offset div unat P ..< Suc ((unat offset + n - 1) div unat P)]"
proof -
  have Ppos: "0 < unat P" using P by (simp add: unat_gt_0)
  have h: "0 < n \<and> n < 2 ^ 64 \<and> unat offset + n \<le> 2 ^ 64" using n0 n64 nov by simp
  define s where "s = unat offset div unat P"
  define l where "l = (unat offset + n - 1) div unat P"
  have us: "unat (start_index P offset) = s"
    by (simp add: start_index_def unat_div s_def)
  have ul: "unat (last_index P offset (of_nat n)) = l"
    using h by (simp add: last_index_def unat_div unat_request_end l_def)
  have "unat offset \<le> unat offset + n - 1" using n0 by linarith
  then have sl: "s \<le> l" unfolding s_def l_def by (rule div_le_mono)
  have lb: "l \<le> unat offset + n - 1" by (simp add: l_def)
  have b: "last_index P offset (of_nat n) + 1 = of_nat (Suc l)"
    using ul by (metis of_nat_Suc of_nat_unat ucast_id add.commute)
  have "Suc l - s < 2 ^ 64"
  proof (cases "s = 0")
    case False
    then show ?thesis using lb n0 nov by linarith
  next
    case True
    show ?thesis
    proof (cases "unat P = 1")
      case True
      then have "unat offset = 0" using \<open>s = 0\<close> by (simp add: s_def)
      then show ?thesis using lb n0 n64 by linarith
    next
      case False
      then have "1 < unat P" using Ppos by linarith
      have "l < unat offset + n - 1 \<or> unat offset + n - 1 = 0"
        using \<open>1 < unat P\<close> unfolding l_def
        by (metis div_less_dividend bot_nat_0.not_eq_extremum)
      moreover have "(1 :: nat) < 2 ^ 64" by simp
      ultimately show ?thesis using n0 nov lb by linarith
    qed
  qed
  then have "iota (start_index P offset) (of_nat (Suc l))
               = map of_nat [unat (start_index P offset)..<Suc l]"
    using sl us by (intro iota_no_wrap) simp_all
  then have eq: "page_indices P offset (of_nat n) = map of_nat [s..<Suc l]"
    unfolding page_indices_def b us .
  then show ?thesis by (simp add: s_def l_def)
qed

section \<open>Admission\<close>

lemma evict_effect:
  assumes "n \<le> length (m_lru c)"
  shows "\<exists>c'. evict n c = Some c'
           \<and> m_lru c' = take (length (m_lru c) - n) (m_lru c)
           \<and> m_table c' = filter (\<lambda>e. fst e \<notin> (m_key \<circ> snd) ` set (drop (length (m_lru c) - n) (m_lru c))) (m_table c)
           \<and> m_orphaned c' = m_orphaned c @ filter (\<lambda>(h, page). Page_is_dirty page) (rev (drop (length (m_lru c) - n) (m_lru c)))
           \<and> m_queue c' = m_queue c \<and> m_page_size c' = m_page_size c \<and> m_max_pages c' = m_max_pages c"
  using assms
proof (induction n arbitrary: c)
  case 0
  then show ?case by simp
next
  case (Suc n)
  then have ne: "m_lru c \<noteq> []" by auto
  obtain h page where lst: "last (m_lru c) = (h, page)" by (cases "last (m_lru c)")
  define c1 where "c1 = c\<lparr>m_table := AList.delete (m_key page) (m_table c)\<rparr>"
  define c2 where "c2 = (if Page_is_dirty page
                 then c1\<lparr>m_orphaned := m_orphaned c1 @ [(h, page)], m_lru := butlast (m_lru c1)\<rparr>
                 else c1\<lparr>m_lru := butlast (m_lru c1)\<rparr>)"
  have ev: "evict (Suc n) c = evict n c2"
    using ne lst by (simp add: c1_def c2_def Let_def)
  have lru2: "m_lru c2 = butlast (m_lru c)" by (simp add: c2_def c1_def)
  have tab2: "m_table c2 = AList.delete (m_key page) (m_table c)" by (simp add: c2_def c1_def)
  have orp2: "m_orphaned c2 = m_orphaned c @ (if Page_is_dirty page then [(h, page)] else [])"
    by (simp add: c2_def c1_def)
  have rest2: "m_queue c2 = m_queue c" "m_page_size c2 = m_page_size c" "m_max_pages c2 = m_max_pages c"
    by (simp_all add: c2_def c1_def)
  have len2: "n \<le> length (m_lru c2)" using Suc.prems lru2 by simp
  from Suc.IH[OF len2] obtain c' where c': "evict n c2 = Some c'"
    "m_lru c' = take (length (m_lru c2) - n) (m_lru c2)"
    "m_table c' = filter (\<lambda>e. fst e \<notin> (m_key \<circ> snd) ` set (drop (length (m_lru c2) - n) (m_lru c2))) (m_table c2)"
    "m_orphaned c' = m_orphaned c2 @ filter (\<lambda>(h, page). Page_is_dirty page) (rev (drop (length (m_lru c2) - n) (m_lru c2)))"
    "m_queue c' = m_queue c2" "m_page_size c' = m_page_size c2" "m_max_pages c' = m_max_pages c2"
    by blast
  define L where "L = length (m_lru c)"
  have Lpos: "Suc n \<le> L" using Suc.prems by (simp add: L_def)
  have split: "m_lru c = butlast (m_lru c) @ [(h, page)]"
    using ne lst by (metis append_butlast_last_id)
  have dr: "drop (L - Suc n) (m_lru c) = drop (L - Suc n) (butlast (m_lru c)) @ [(h, page)]"
    using Lpos by (subst split) (simp add: L_def)
  have tk: "take (L - Suc n) (m_lru c) = take (L - Suc n) (butlast (m_lru c))"
    using Lpos by (subst split) (simp add: L_def)
  have l2: "length (m_lru c2) - n = L - Suc n" using lru2 by (simp add: L_def)
  show ?case
    apply (rule exI[of _ c'])
    unfolding ev L_def[symmetric]
    using c' unfolding l2 lru2 tab2 orp2 rest2 dr tk
    by (auto simp add: L_def AList.delete_eq filter_filter case_prod_beta intro!: filter_cong)
qed


lemma wf_lengths:
  assumes "cache_wf c"
  shows "length (m_table c) = length (m_lru c)"
proof -
  have inj: "inj_on (\<lambda>(h, page). (m_key page, h)) (set (m_lru c))"
    using assms
    by (auto simp add: cache_wf_def inj_on_def dest: eq_key_imp_eq_value)
  have "length (m_table c) = card (set (m_table c))"
    using assms by (metis cache_wf_def distinct_card distinct_map)
  also have "\<dots> = card (set (m_lru c))"
    using assms inj by (simp add: cache_wf_def card_image)
  also have "\<dots> = length (m_lru c)"
    using assms by (metis cache_wf_def distinct_card distinct_map)
  finally show ?thesis .
qed

lemma wf_table_of_node:
  assumes "cache_wf c" "(h, page) \<in> set (m_lru c)"
  shows "map_of (m_table c) (m_key page) = Some h"
proof -
  have "(m_key page, h) \<in> set (m_table c)" using assms by (force simp add: cache_wf_def)
  then show ?thesis using assms(1) by (simp add: cache_wf_def)
qed

text \<open>
  C9 (as amended). In a well-formed cache with room for at least one page
  (\<open>max_pages \<ge> 1\<close>), the admission that follows the insertion of a fetched page at
  the front of the list does not remove that page: its table entry and its node are
  still there, the node still at the front.
\<close>

theorem admit_keeps_installed_page:
  assumes wf: "cache_wf c"
    and miss: "map_of (m_table c) key = None"
    and room: "0 < m_max_pages c"
  shows "\<exists>c'. admit (install c key data len) = Some c'
           \<and> map_of (m_table c') key = Some (new_node c)
           \<and> m_lru c' \<noteq> []
           \<and> hd (m_lru c') = (new_node c, \<lparr>m_key = key, m_data = data, m_size = ucast len\<rparr>)"
proof -
  define h where "h = new_node c"
  define pg where "pg = \<lparr>m_key = key, m_data = data, m_size = ucast len\<rparr>"
  define c2 where "c2 = install c key data len"
  have lru2: "m_lru c2 = (h, pg) # m_lru c"
    by (simp add: c2_def install_def Let_def h_def pg_def)
  have tab2: "m_table c2 = (key, h) # m_table c"
    using miss by (simp add: c2_def install_def Let_def h_def emplace_def)
  have max2: "m_max_pages c2 = m_max_pages c"
    by (simp add: c2_def install_def Let_def)
  have len: "length (m_table c2) = length (m_lru c2)"
    using wf_lengths[OF wf] lru2 tab2 by simp
  have fresh: "key \<notin> (m_key \<circ> snd) ` set (m_lru c)"
  proof
    assume "key \<in> (m_key \<circ> snd) ` set (m_lru c)"
    then obtain h' page where "(h', page) \<in> set (m_lru c)" "m_key page = key" by auto
    then show False using wf_table_of_node[OF wf] miss by fastforce
  qed
  have M: "1 \<le> unat (m_max_pages c)" using room by (simp add: word_less_nat_alt)
  show ?thesis
  proof (cases "length (m_table c2) > unat (m_max_pages c2)")
    case False
    then have "admit c2 = Some c2" by (simp add: admit_def)
    then show ?thesis
      unfolding c2_def[symmetric] h_def[symmetric] pg_def[symmetric]
      by (simp add: lru2 tab2)
  next
    case True
    define n where "n = length (m_table c2) - unat (m_max_pages c2)"
    have adm: "admit c2 = evict n c2" using True by (simp add: admit_def n_def)
    have nle: "n \<le> length (m_lru c)" using M len lru2 max2 by (simp add: n_def)
    then have "n \<le> length (m_lru c2)" using lru2 by simp
    from evict_effect[OF this] obtain c' where c': "evict n c2 = Some c'"
      "m_lru c' = take (length (m_lru c2) - n) (m_lru c2)"
      "m_table c' = filter (\<lambda>e. fst e \<notin> (m_key \<circ> snd) ` set (drop (length (m_lru c2) - n) (m_lru c2))) (m_table c2)"
      by blast
    have k: "Suc (length (m_lru c)) - n = Suc (length (m_lru c) - n)"
      using nle by (rule Suc_diff_le)
    have l': "m_lru c' = (h, pg) # take (length (m_lru c) - n) (m_lru c)"
      by (simp add: c'(2) lru2 k)
    have "set (drop (length (m_lru c) - n) (m_lru c)) \<subseteq> set (m_lru c)"
      by (rule set_drop_subset)
    then have "key \<notin> (m_key \<circ> snd) ` set (drop (length (m_lru c) - n) (m_lru c))"
      using fresh by blast
    then have t': "map_of (m_table c') key = Some h"
      by (simp add: c'(3) lru2 tab2 k)
    show ?thesis
      unfolding c2_def[symmetric] h_def[symmetric] pg_def[symmetric]
      using adm c'(1) l' t' by simp
  qed
qed

theorem admit_keeps_installed_page_witness:
  "cache_wf \<lparr>m_lru = [(1, \<lparr>m_key = PageKey 1 0, m_data = [0, 0, 1, 2], m_size = 4\<rparr>)],
             m_table = [(PageKey 1 0, 1)], m_queue = [], m_orphaned = [],
             m_page_size = 4, m_max_pages = 1\<rparr>
   \<and> map_of (m_table \<lparr>m_lru = [(1, \<lparr>m_key = PageKey 1 0, m_data = [0, 0, 1, 2], m_size = 4\<rparr>)],
             m_table = [(PageKey 1 0, 1)], m_queue = [], m_orphaned = [],
             m_page_size = 4, m_max_pages = 1\<rparr>) (PageKey 1 1) = None
   \<and> 0 < m_max_pages \<lparr>m_lru = [(1, \<lparr>m_key = PageKey 1 0, m_data = [0, 0, 1, 2], m_size = 4\<rparr>)],
             m_table = [(PageKey 1 0, 1)], m_queue = [], m_orphaned = [],
             m_page_size = 4, m_max_pages = 1\<rparr>
   \<and> (\<exists>c'. admit (install \<lparr>m_lru = [(1, \<lparr>m_key = PageKey 1 0, m_data = [0, 0, 1, 2], m_size = 4\<rparr>)],
             m_table = [(PageKey 1 0, 1)], m_queue = [], m_orphaned = [],
             m_page_size = 4, m_max_pages = 1\<rparr> (PageKey 1 1) [9, 9, 9, 9] 4) = Some c'
         \<and> map_of (m_table c') (PageKey 1 1) = Some 2
         \<and> m_lru c' \<noteq> []
         \<and> hd (m_lru c') = (2, \<lparr>m_key = PageKey 1 1, m_data = [9, 9, 9, 9], m_size = 4\<rparr>))"
  using admit_keeps_installed_page
    [of "\<lparr>m_lru = [(1, \<lparr>m_key = PageKey 1 0, m_data = [0, 0, 1, 2], m_size = 4\<rparr>)],
             m_table = [(PageKey 1 0, 1)], m_queue = [], m_orphaned = [],
             m_page_size = 4, m_max_pages = 1\<rparr>" "PageKey 1 1" "[9, 9, 9, 9]" 4]
  apply (simp add: cache_wf_def new_node_def)
  apply (simp only: numeral_2_eq_2)
  done

text \<open>
  C9 as stated fails for \<open>max_pages = 0\<close>: the admission removes the page that was
  just inserted, and the read dereferences the erased table entry.
\<close>

theorem admit_removes_installed_page:
  "admit (install \<lparr>m_lru = [], m_table = [], m_queue = [], m_orphaned = [],
                   m_page_size = 4, m_max_pages = 0\<rparr> (PageKey 1 0) [9, 9, 9, 9] 4)
     = Some \<lparr>m_lru = [], m_table = [], m_queue = [], m_orphaned = [],
             m_page_size = 4, m_max_pages = 0\<rparr>
   \<and> Cache_read \<lparr>m_lru = [], m_table = [], m_queue = [], m_orphaned = [],
                  m_page_size = 4, m_max_pages = 0\<rparr> 1 [0] 0 (fetch_ok [9, 9, 9, 9]) = None"
  by code_simp

section \<open>Flush\<close>

lemma clean_after_set_dirty_False: "\<not> Page_is_dirty (Page_set_dirty page False)"
  by (simp add: Page_is_dirty_def Page_set_dirty_def word_bw_assocs)

lemma flush_page_cases:
  assumes "flush_page on_flush id' index (c, fl) = Some (r, (c', fl'))"
  obtains (skip) "c' = c" "fl' = fl"
      "\<And>err. r = Failure err \<Longrightarrow> map_of (m_queue c) (PageKey id' index) \<noteq> None"
    | (push) h page n data where
      "map_of (m_table c) (PageKey id' index) = Some h"
      "map_of (m_lru c) h = Some page" "Page_is_dirty page"
      "Page_read page (replicate (unat (m_page_size c)) 0) 0 = Some (n, data)"
      "c' = c\<lparr>m_lru := AList.update h (Page_set_dirty page False) (m_lru c)\<rparr>"
      "fl' = fl @ [(PageKey id' index, take (unat n) data, index * m_page_size c)]"
      "\<And>err. r = Failure err \<Longrightarrow> on_flush (take (unat n) data) (index * m_page_size c) = Inl err"
proof (cases "queued c (PageKey id' index)")
  case (Failure err)
  then show ?thesis using assms
    by (intro skip)
      (auto simp add: flush_page_def queued_def split: option.splits future.splits if_splits)
next
  case (Suspended k)
  then show ?thesis using assms by (intro skip) (auto simp add: flush_page_def Let_def)
next
  case (Value u)
  show ?thesis
  proof (cases "map_of (m_table c) (PageKey id' index)")
    case None
    then show ?thesis using assms Value by (intro skip) (auto simp add: flush_page_def Let_def)
  next
    case (Some h)
    then obtain page where page: "map_of (m_lru c) h = Some page"
      using assms Value by (auto simp add: flush_page_def Let_def split: option.splits if_splits)
    show ?thesis
    proof (cases "Page_is_dirty page")
      case False
      then show ?thesis using assms Value Some page
        by (intro skip) (auto simp add: flush_page_def Let_def)
    next
      case True
      then obtain n data where rd: "Page_read page (replicate (unat (m_page_size c)) 0) 0 = Some (n, data)"
        using assms Value Some page by (auto simp add: flush_page_def Let_def split: option.splits if_splits)
      show ?thesis
        using assms Value Some page True rd
        by (intro push[of h page n data])
          (auto simp add: flush_page_def Let_def split: sum.splits)
    qed
  qed
qed


lemma resident_update:
  "resident (c\<lparr>m_lru := AList.update h v (m_lru c)\<rparr>) key =
     (case map_of (m_table c) key of
        None \<Rightarrow> None
      | Some h' \<Rightarrow> if h' = h then Some v else map_of (m_lru c) h')"
  by (simp add: resident_def update_conv' split: option.splits)

lemma flush_page_keeps_clean:
  assumes "flush_page on_flush id' index (c, fl) = Some (r, (c', fl'))"
    and "resident c key = Some page" "\<not> Page_is_dirty page"
  shows "\<exists>page'. resident c' key = Some page' \<and> \<not> Page_is_dirty page'"
  using assms(1)
proof (cases rule: flush_page_cases)
  case skip
  then show ?thesis using assms by simp
next
  case (push h page0 n data)
  then show ?thesis
    using assms(2,3) clean_after_set_dirty_False
    by (auto simp add: resident_def update_conv' split: option.splits)
qed

lemma flush_page_dirty_before:
  assumes "flush_page on_flush id' index (c, fl) = Some (r, (c', fl'))"
    and "resident c' key = Some page'" "Page_is_dirty page'"
  shows "resident c key = Some page'"
  using assms(1)
proof (cases rule: flush_page_cases)
  case skip
  then show ?thesis using assms by simp
next
  case (push h page0 n data)
  then show ?thesis
    using assms(2,3) clean_after_set_dirty_False
    by (auto simp add: resident_def update_conv' split: option.splits if_splits)
qed

lemma flush_loop_keeps_clean:
  assumes "flush_loop on_flush id' indices (c, fl) = Some (r, (c', fl'))"
    and "resident c key = Some page" "\<not> Page_is_dirty page"
  shows "\<exists>page'. resident c' key = Some page' \<and> \<not> Page_is_dirty page'"
  using assms
proof (induction indices arbitrary: c fl page)
  case Nil
  then show ?case by auto
next
  case (Cons index rest)
  from Cons.prems(1) obtain r1 c1 fl1 where
    step: "flush_page on_flush id' index (c, fl) = Some (r1, (c1, fl1))"
    by (auto split: option.splits)
  from flush_page_keeps_clean[OF step Cons.prems(2,3)] obtain page1 where
    p1: "resident c1 key = Some page1" "\<not> Page_is_dirty page1" by blast
  show ?case
  proof (cases r1)
    case (Value u)
    then have "flush_loop on_flush id' rest (c1, fl1) = Some (r, (c', fl'))"
      using Cons.prems(1) step by simp
    from Cons.IH[OF this p1] show ?thesis .
  next
    case (Failure err)
    then have "c' = c1" using Cons.prems(1) step by simp
    then show ?thesis using p1 by blast
  next
    case (Suspended k)
    then have "c' = c1" using Cons.prems(1) step by simp
    then show ?thesis using p1 by blast
  qed
qed

lemma flush_loop_dirty_before:
  assumes "flush_loop on_flush id' indices (c, fl) = Some (r, (c', fl'))"
    and "resident c' key = Some page'" "Page_is_dirty page'"
  shows "resident c key = Some page'"
  using assms
proof (induction indices arbitrary: c fl)
  case Nil
  then show ?case by auto
next
  case (Cons index rest)
  from Cons.prems(1) obtain r1 c1 fl1 where
    step: "flush_page on_flush id' index (c, fl) = Some (r1, (c1, fl1))"
    by (auto split: option.splits)
  have "resident c1 key = Some page'"
  proof (cases r1)
    case (Value u)
    then have "flush_loop on_flush id' rest (c1, fl1) = Some (r, (c', fl'))"
      using Cons.prems(1) step by simp
    from Cons.IH[OF this Cons.prems(2,3)] show ?thesis .
  next
    case (Failure err)
    then have "c' = c1" using Cons.prems(1) step by simp
    then show ?thesis using Cons.prems(2) by simp
  next
    case (Suspended k)
    then have "c' = c1" using Cons.prems(1) step by simp
    then show ?thesis using Cons.prems(2) by simp
  qed
  from flush_page_dirty_before[OF step this Cons.prems(3)] show ?case .
qed

lemma flush_page_log:
  assumes "flush_page on_flush id' index (c, fl) = Some (r, (c', fl'))"
  shows "m_queue c' = m_queue c
       \<and> (\<exists>new. fl' = fl @ new
            \<and> (\<forall>(key, bytes, off) \<in> set new.
                  (\<exists>page. resident c key = Some page \<and> Page_is_dirty page)
                \<and> (\<exists>page'. resident c' key = Some page' \<and> \<not> Page_is_dirty page'))
            \<and> (m_queue c = [] \<longrightarrow> (\<forall>err. r = Failure err \<longrightarrow>
                  new \<noteq> [] \<and> on_flush (fst (snd (last new))) (snd (snd (last new))) = Inl err)))"
  using assms
proof (cases rule: flush_page_cases)
  case skip
  then show ?thesis by auto
next
  case (push h page n data)
  then show ?thesis
    using clean_after_set_dirty_False
    by (auto simp add: resident_def update_conv')
qed

lemma flush_loop_log:
  assumes "flush_loop on_flush id' indices (c, fl) = Some (r, (c', fl'))"
  shows "m_queue c' = m_queue c
       \<and> (\<exists>new. fl' = fl @ new
            \<and> (\<forall>(key, bytes, off) \<in> set new.
                  (\<exists>page. resident c key = Some page \<and> Page_is_dirty page)
                \<and> (\<exists>page'. resident c' key = Some page' \<and> \<not> Page_is_dirty page'))
            \<and> (m_queue c = [] \<longrightarrow> (\<forall>err. r = Failure err \<longrightarrow>
                  new \<noteq> [] \<and> on_flush (fst (snd (last new))) (snd (snd (last new))) = Inl err)))"
  using assms
proof (induction indices arbitrary: c fl)
  case Nil
  then show ?case by auto
next
  case (Cons index rest)
  from Cons.prems(1) obtain r1 c1 fl1 where
    step: "flush_page on_flush id' index (c, fl) = Some (r1, (c1, fl1))"
    by (auto split: option.splits)
  from flush_page_log[OF step] obtain new1 where
    q1: "m_queue c1 = m_queue c" and n1: "fl1 = fl @ new1"
    and d1: "\<forall>(key, bytes, off) \<in> set new1.
                  (\<exists>page. resident c key = Some page \<and> Page_is_dirty page)
                \<and> (\<exists>page'. resident c1 key = Some page' \<and> \<not> Page_is_dirty page')"
    and f1: "m_queue c = [] \<longrightarrow> (\<forall>err. r1 = Failure err \<longrightarrow>
                  new1 \<noteq> [] \<and> on_flush (fst (snd (last new1))) (snd (snd (last new1))) = Inl err)"
    by blast
  show ?case
  proof (cases "\<exists>u. r1 = Value u")
    case False
    then have "r = r1 \<and> c' = c1 \<and> fl' = fl1"
      using Cons.prems(1) step by (cases r1) auto
    then show ?thesis using q1 n1 d1 f1 by blast
  next
    case True
    then have rest: "flush_loop on_flush id' rest (c1, fl1) = Some (r, (c', fl'))"
      using Cons.prems(1) step by auto
    from Cons.IH[OF rest] obtain new2 where
      q2: "m_queue c' = m_queue c1" and n2: "fl' = fl1 @ new2"
      and d2: "\<forall>(key, bytes, off) \<in> set new2.
                  (\<exists>page. resident c1 key = Some page \<and> Page_is_dirty page)
                \<and> (\<exists>page'. resident c' key = Some page' \<and> \<not> Page_is_dirty page')"
      and f2: "m_queue c1 = [] \<longrightarrow> (\<forall>err. r = Failure err \<longrightarrow>
                  new2 \<noteq> [] \<and> on_flush (fst (snd (last new2))) (snd (snd (last new2))) = Inl err)"
      by blast
    have a: "\<forall>(key, bytes, off) \<in> set (new1 @ new2).
                  (\<exists>page. resident c key = Some page \<and> Page_is_dirty page)
                \<and> (\<exists>page'. resident c' key = Some page' \<and> \<not> Page_is_dirty page')"
    proof (clarify, intro conjI)
      fix key bytes off
      assume e: "(key, bytes, off) \<in> set (new1 @ new2)"
      show "\<exists>page. resident c key = Some page \<and> Page_is_dirty page"
      proof (cases "(key, bytes, off) \<in> set new1")
        case True
        then show ?thesis using d1 by blast
      next
        case False
        then have "(key, bytes, off) \<in> set new2" using e by simp
        then obtain page where "resident c1 key = Some page" "Page_is_dirty page"
          using d2 by blast
        then show ?thesis using flush_page_dirty_before[OF step] by blast
      qed
      show "\<exists>page'. resident c' key = Some page' \<and> \<not> Page_is_dirty page'"
      proof (cases "(key, bytes, off) \<in> set new2")
        case True
        then show ?thesis using d2 by blast
      next
        case False
        then have "(key, bytes, off) \<in> set new1" using e by simp
        then obtain page where "resident c1 key = Some page" "\<not> Page_is_dirty page"
          using d1 by blast
        then show ?thesis using flush_loop_keeps_clean[OF rest] by blast
      qed
    qed
    have b: "m_queue c = [] \<longrightarrow> (\<forall>err. r = Failure err \<longrightarrow>
                  new1 @ new2 \<noteq> []
                \<and> on_flush (fst (snd (last (new1 @ new2)))) (snd (snd (last (new1 @ new2)))) = Inl err)"
      using f2 q1 by auto
    show ?thesis using q1 q2 n1 n2 a b by auto
  qed
qed

section \<open>The orphan sink\<close>

lemma evict_orphans_dirty:
  assumes "evict n c = Some c'" "orphans_dirty c"
  shows "orphans_dirty c'"
  using assms
proof (induction n arbitrary: c)
  case 0
  then show ?case by simp
next
  case (Suc n)
  then have ne: "m_lru c \<noteq> []" by (auto split: if_splits)
  obtain h page where lst: "last (m_lru c) = (h, page)" by (cases "last (m_lru c)")
  define c2 where "c2 = (if Page_is_dirty page
       then c\<lparr>m_table := AList.delete (m_key page) (m_table c),
              m_orphaned := m_orphaned c @ [(h, page)], m_lru := butlast (m_lru c)\<rparr>
       else c\<lparr>m_table := AList.delete (m_key page) (m_table c), m_lru := butlast (m_lru c)\<rparr>)"
  have ev: "evict n c2 = Some c'"
    using Suc.prems(1) ne lst by (simp add: c2_def Let_def split: if_splits)
  have "orphans_dirty c2" using Suc.prems(2) by (simp add: c2_def orphans_dirty_def)
  from Suc.IH[OF ev this] show ?case .
qed

lemma admit_orphans_dirty:
  assumes "admit c = Some c'" "orphans_dirty c"
  shows "orphans_dirty c'"
  using assms evict_orphans_dirty by (auto simp add: admit_def split: if_splits)

lemma read_from_page_orphans:
  assumes "read_from_page c h lo out tot = Some (c', out', tot1)"
  shows "m_orphaned c' = m_orphaned c"
  using assms by (auto simp add: read_from_page_def split: option.splits)

lemma read_page_orphans_dirty:
  assumes "read_page on_miss id' offset start index (c, out, tot, misses) = Some (r, (c', rest))"
    and "orphans_dirty c"
  shows "orphans_dirty c'"
proof -
  have inst: "orphans_dirty (install (c\<lparr>m_queue := q\<rparr>) key data len)" for q key data len
    using assms(2) by (simp add: install_def Let_def orphans_dirty_def)
  show ?thesis
    using assms admit_orphans_dirty[OF _ inst] read_from_page_orphans
    by (auto simp add: read_page_def Let_def orphans_dirty_def
        split: result.splits option.splits sum.splits prod.splits)
qed


lemma read_loop_orphans_dirty:
  assumes "read_loop on_miss id' offset start indices (c, out, tot, misses) = Some (r, (c', rest))"
    and "orphans_dirty c"
  shows "orphans_dirty c'"
  using assms
proof (induction indices arbitrary: c out tot misses)
  case Nil
  then show ?case by simp
next
  case (Cons index indices)
  from Cons.prems(1) obtain r1 c1 out1 tot1 misses1 where
    step: "read_page on_miss id' offset start index (c, out, tot, misses)
             = Some (r1, (c1, out1, tot1, misses1))"
    by (auto split: option.splits)
  have d1: "orphans_dirty c1" using read_page_orphans_dirty[OF step Cons.prems(2)] .
  show ?case
  proof (cases r1)
    case (Value u)
    then have "read_loop on_miss id' offset start indices (c1, out1, tot1, misses1)
                 = Some (r, (c', rest))"
      using Cons.prems(1) step by simp
    from Cons.IH[OF this d1] show ?thesis .
  next
    case (Failure err)
    then show ?thesis using Cons.prems(1) step d1 by auto
  next
    case (Suspended k)
    then show ?thesis using Cons.prems(1) step d1 by auto
  qed
qed

lemma write_page_orphans_dirty:
  assumes "write_page id' inp offset start index (c, tot) = Some (r, (c', tot1))"
    and "orphans_dirty c"
  shows "orphans_dirty c'"
proof -
  have adm: "orphans_dirty c2" if "admit c1 = Some c2" "m_orphaned c1 = m_orphaned c" for c1 c2
  proof -
    have "orphans_dirty c1" using assms(2) that(2) by (simp add: orphans_dirty_def)
    then show ?thesis using admit_orphans_dirty[OF that(1)] by simp
  qed
  show ?thesis
    using assms
    by (auto simp add: write_page_def Let_def
        split: result.splits option.splits prod.splits if_splits intro!: adm)
qed

lemma write_loop_orphans_dirty:
  assumes "write_loop id' inp offset start indices (c, tot) = Some (r, (c', tot1))"
    and "orphans_dirty c"
  shows "orphans_dirty c'"
  using assms
proof (induction indices arbitrary: c tot)
  case Nil
  then show ?case by simp
next
  case (Cons index indices)
  from Cons.prems(1) obtain r1 c1 tot2 where
    step: "write_page id' inp offset start index (c, tot) = Some (r1, (c1, tot2))"
    by (auto split: option.splits)
  have d1: "orphans_dirty c1" using write_page_orphans_dirty[OF step Cons.prems(2)] .
  show ?case
  proof (cases r1)
    case (Value u)
    then have "write_loop id' inp offset start indices (c1, tot2) = Some (r, (c', tot1))"
      using Cons.prems(1) step by simp
    from Cons.IH[OF this d1] show ?thesis .
  next
    case (Failure err)
    then show ?thesis using Cons.prems(1) step d1 by auto
  next
    case (Suspended k)
    then show ?thesis using Cons.prems(1) step d1 by auto
  qed
qed

lemma flush_page_orphans:
  assumes "flush_page on_flush id' index (c, fl) = Some (r, (c', fl'))"
  shows "m_orphaned c' = m_orphaned c"
  using assms by (cases rule: flush_page_cases) auto

lemma flush_loop_orphans:
  assumes "flush_loop on_flush id' indices (c, fl) = Some (r, (c', fl'))"
  shows "m_orphaned c' = m_orphaned c"
  using assms
proof (induction indices arbitrary: c fl)
  case Nil
  then show ?case by simp
next
  case (Cons index indices)
  from Cons.prems(1) obtain r1 c1 fl1 where
    step: "flush_page on_flush id' index (c, fl) = Some (r1, (c1, fl1))"
    by (auto split: option.splits)
  have o1: "m_orphaned c1 = m_orphaned c" using flush_page_orphans[OF step] .
  show ?case
  proof (cases r1)
    case (Value u)
    then have "flush_loop on_flush id' indices (c1, fl1) = Some (r, (c', fl'))"
      using Cons.prems(1) step by simp
    from Cons.IH[OF this] o1 show ?thesis by simp
  next
    case (Failure err)
    then show ?thesis using Cons.prems(1) step o1 by auto
  next
    case (Suspended k)
    then show ?thesis using Cons.prems(1) step o1 by auto
  qed
qed

section \<open>Reading what was written\<close>

lemma span_facts:
  fixes P off n j :: nat
  assumes P: "0 < P" and n: "0 < n"
    and j: "off div P \<le> j" "j \<le> (off + n - 1) div P"
  shows "j * P \<le> off + n - 1" "off < Suc j * P"
    "off div P < j \<Longrightarrow> off < j * P"
    "j = off div P \<Longrightarrow> j * P \<le> off"
    "j < (off + n - 1) div P \<Longrightarrow> Suc j * P \<le> off + n - 1"
    "j = (off + n - 1) div P \<Longrightarrow> off + n - 1 < Suc j * P"
proof -
  show "j * P \<le> off + n - 1"
    using j(2) P by (simp add: less_eq_div_iff_mult_less_eq)
  have "off div P < Suc j" using j(1) by simp
  then show "off < Suc j * P" using P by (simp add: div_less_iff_less_mult)
  show "off < j * P" if "off div P < j"
    using that P by (simp add: div_less_iff_less_mult)
  show "j * P \<le> off" if "j = off div P"
    using that by simp
  show "Suc j * P \<le> off + n - 1" if "j < (off + n - 1) div P"
  proof -
    have "Suc j \<le> (off + n - 1) div P" using that by simp
    then show ?thesis using P by (simp only: less_eq_div_iff_mult_less_eq)
  qed
  show "off + n - 1 < Suc j * P" if "j = (off + n - 1) div P"
  proof -
    have "(off + n - 1) div P < Suc j" using that by simp
    then show ?thesis using P by (simp only: div_less_iff_less_mult)
  qed
qed

lemma page_offset_eq:
  assumes "0 < P"
  shows "page_offset P off j = (if j = off div P then off mod P else if off div P < j then 0 else off - j * P)"
proof -
  have "off = (off div P) * P + off mod P" by simp
  show ?thesis
  proof (cases "j = off div P")
    case True
    then have "j * P \<le> off" by simp
    then have "page_offset P off j = off - j * P" by (simp add: page_offset_def max_def)
    also have "\<dots> = off mod P" using True by (simp add: minus_div_mult_eq_mod)
    finally show ?thesis using True by simp
  next
    case False
    show ?thesis
    proof (cases "off div P < j")
      case True
      then have "off < j * P" using assms by (simp add: div_less_iff_less_mult)
      then show ?thesis using True False by (simp add: page_offset_def max_def)
    next
      case False
      then have "j < off div P" using \<open>j \<noteq> off div P\<close> by simp
      then have "Suc j \<le> off div P" by simp
      then have "Suc j * P \<le> off" using assms by (simp only: less_eq_div_iff_mult_less_eq)
      then have "j * P \<le> off" by simp
      then show ?thesis using False \<open>j \<noteq> off div P\<close> by (simp add: page_offset_def max_def)
    qed
  qed
qed

lemma slice_arith:
  fixes P off n j :: nat
  assumes P: "0 < P" and n: "0 < n"
    and j: "off div P \<le> j" "j \<le> (off + n - 1) div P"
  shows "bytes_before P off n j \<le> n"
    and "min (P - page_offset P off j) (n - bytes_before P off n j)
           = bytes_before P off n (Suc j) - bytes_before P off n j"
    and "bytes_before P off n j < bytes_before P off n (Suc j)"
    and "bytes_before P off n (Suc j) \<le> n"
    and "page_offset P off j + (bytes_before P off n (Suc j) - bytes_before P off n j) \<le> P"
    and "page_offset P off j < P"
proof -
  define X where "X = j * P"
  have SX: "Suc j * P = X + P" by (simp add: X_def)
  note f = span_facts[OF P n j, folded X_def, unfolded SX]
  have c: "off div P < j \<or> j = off div P" using j(1) by auto
  have d: "j < (off + n - 1) div P \<or> j = (off + n - 1) div P" using j(2) by auto
  show "bytes_before P off n j \<le> n"
    unfolding bytes_before_def X_def[symmetric] by simp
  show "bytes_before P off n (Suc j) \<le> n"
    unfolding bytes_before_def by simp
  show "min (P - page_offset P off j) (n - bytes_before P off n j)
           = bytes_before P off n (Suc j) - bytes_before P off n j"
    unfolding bytes_before_def page_offset_def SX X_def[symmetric]
    using f c d n P by (auto simp add: min_def max_def)
  show "bytes_before P off n j < bytes_before P off n (Suc j)"
    unfolding bytes_before_def page_offset_def SX X_def[symmetric]
    using f c d n P by (auto simp add: min_def max_def)
  show "page_offset P off j + (bytes_before P off n (Suc j) - bytes_before P off n j) \<le> P"
    unfolding bytes_before_def page_offset_def SX X_def[symmetric]
    using f c d n P by (auto simp add: min_def max_def)
  show "page_offset P off j < P"
    unfolding bytes_before_def page_offset_def SX X_def[symmetric]
    using f c d n P by (auto simp add: min_def max_def)
qed

lemma bytes_before_first:
  assumes "0 < P"
  shows "bytes_before P off n (off div P) = 0"
proof -
  have "(off div P) * P \<le> off" by simp
  then show ?thesis by (simp add: bytes_before_def max_def)
qed

lemma bytes_before_end:
  assumes "0 < P" "0 < n"
  shows "bytes_before P off n (Suc ((off + n - 1) div P)) = n"
proof -
  have "(off + n - 1) div P < Suc ((off + n - 1) div P)" by simp
  then have "off + n - 1 < Suc ((off + n - 1) div P) * P"
    using assms(1) by (simp only: div_less_iff_less_mult)
  then have "off + n \<le> Suc ((off + n - 1) div P) * P" using assms(2) by linarith
  then show ?thesis by (simp add: bytes_before_def min_def max_def)
qed

lemma fold_max_ge:
  fixes xs :: "nat list"
  shows "a \<le> fold max xs a \<and> (\<forall>x \<in> set xs. x \<le> fold max xs a)"
proof (induction xs arbitrary: a)
  case Nil
  then show ?case by simp
next
  case (Cons y ys)
  have "max y a \<le> fold max ys (max y a)" "\<forall>x \<in> set ys. x \<le> fold max ys (max y a)"
    using Cons.IH[of "max y a"] by simp_all
  then show ?case by auto
qed

lemma new_node_fresh: "new_node c \<notin> fst ` set (m_lru c)"
proof
  assume "new_node c \<in> fst ` set (m_lru c)"
  then have "new_node c \<in> set (map fst (m_lru c @ m_orphaned c))" by auto
  then have "new_node c \<le> fold max (map fst (m_lru c @ m_orphaned c)) 0"
    using fold_max_ge by blast
  then show False by (simp add: new_node_def)
qed

lemma wf_inj_key:
  assumes "cache_wf c" "(h1, p1) \<in> set (m_lru c)" "(h2, p2) \<in> set (m_lru c)"
    and "m_key p1 = m_key p2"
  shows "h1 = h2 \<and> p1 = p2"
proof -
  have dt: "distinct (map fst (m_table c))" and dl: "distinct (map fst (m_lru c))"
    using assms(1) by (simp_all add: cache_wf_def)
  have "(m_key p1, h1) \<in> set (m_table c)" "(m_key p1, h2) \<in> set (m_table c)"
    using assms by (force simp add: cache_wf_def)+
  then have "h1 = h2" using eq_key_imp_eq_value[OF dt] by blast
  then show ?thesis using assms(2,3) eq_key_imp_eq_value[OF dl] by blast
qed

lemma wf_resident_iff:
  assumes "cache_wf c"
  shows "resident c key = Some page \<longleftrightarrow> (\<exists>h. (h, page) \<in> set (m_lru c)) \<and> m_key page = key"
proof
  assume r: "resident c key = Some page"
  then obtain h where h: "map_of (m_table c) key = Some h" "map_of (m_lru c) h = Some page"
    by (auto simp add: resident_def split: option.splits)
  then have "(key, h) \<in> set (m_table c)" by (simp add: map_of_SomeD)
  then obtain p' where p': "(h, p') \<in> set (m_lru c)" "m_key p' = key"
    using assms by (auto simp add: cache_wf_def)
  have dl: "distinct (map fst (m_lru c))" using assms by (simp add: cache_wf_def)
  have "(h, page) \<in> set (m_lru c)" using h(2) by (simp add: map_of_SomeD)
  then have "p' = page" using p'(1) eq_key_imp_eq_value[OF dl] by blast
  then show "(\<exists>h. (h, page) \<in> set (m_lru c)) \<and> m_key page = key"
    using p' by auto
next
  assume "(\<exists>h. (h, page) \<in> set (m_lru c)) \<and> m_key page = key"
  then obtain h where h: "(h, page) \<in> set (m_lru c)" "m_key page = key" by auto
  then have "map_of (m_table c) key = Some h" using wf_table_of_node[OF assms h(1)] by simp
  moreover have "map_of (m_lru c) h = Some page"
    using h(1) assms by (simp add: cache_wf_def)
  ultimately show "resident c key = Some page" by (simp add: resident_def)
qed

lemma touch_eq:
  assumes "distinct (map fst lru)" "map_of lru h = Some page"
  shows "touch h lru = Some ((h, page) # AList.delete h lru)"
proof (cases lru)
  case Nil
  then show ?thesis using assms by simp
next
  case (Cons x xs)
  show ?thesis
  proof (cases "fst x = h")
    case True
    then have "x = (h, page)" using assms(2) Cons by (cases x) auto
    moreover have "h \<notin> fst ` set xs" using assms(1) Cons True by auto
    ultimately show ?thesis using assms(2) Cons by (simp add: touch_def)
  next
    case False
    then show ?thesis using assms(2) Cons by (simp add: touch_def)
  qed
qed

lemma update_append_notin:
  assumes "h \<notin> fst ` set xs"
  shows "AList.update h v (xs @ ys) = xs @ AList.update h v ys"
  using assms by (induction xs) auto

lemma delete_append_notin:
  assumes "h \<notin> fst ` set xs"
  shows "AList.delete h (xs @ ys) = xs @ AList.delete h ys"
  using assms by (simp add: AList.delete_eq) (induction xs; auto)

lemma set_delete_distinct:
  assumes "distinct (map fst xs)" "(h, p) \<in> set xs"
  shows "set (AList.delete h xs) = set xs - {(h, p)}"
  using assms by (auto simp add: AList.delete_eq dest: eq_key_imp_eq_value)

lemma admit_effect:
  assumes wf: "cache_wf c"
  shows "\<exists>c'. admit c = Some c' \<and> m_lru c' = take (unat (m_max_pages c)) (m_lru c)
           \<and> cache_wf c' \<and> m_queue c' = m_queue c
           \<and> m_page_size c' = m_page_size c \<and> m_max_pages c' = m_max_pages c"
proof (cases "length (m_table c) > unat (m_max_pages c)")
  case False
  then have "admit c = Some c" by (simp add: admit_def)
  moreover have "take (unat (m_max_pages c)) (m_lru c) = m_lru c"
    using False wf_lengths[OF wf] by simp
  ultimately show ?thesis using wf by simp
next
  case True
  define M where "M = unat (m_max_pages c)"
  define n where "n = length (m_table c) - M"
  have L: "length (m_table c) = length (m_lru c)" using wf_lengths[OF wf] .
  have adm: "admit c = evict n c" using True by (simp add: admit_def n_def M_def)
  have "n \<le> length (m_lru c)" using L by (simp add: n_def)
  from evict_effect[OF this] obtain c' where c': "evict n c = Some c'"
    "m_lru c' = take (length (m_lru c) - n) (m_lru c)"
    "m_table c' = filter (\<lambda>e. fst e \<notin> (m_key \<circ> snd) ` set (drop (length (m_lru c) - n) (m_lru c))) (m_table c)"
    "m_queue c' = m_queue c" "m_page_size c' = m_page_size c" "m_max_pages c' = m_max_pages c"
    by blast
  have k: "length (m_lru c) - n = M" using True L by (simp add: n_def M_def)
  define kept where "kept = take M (m_lru c)"
  define gone where "gone = drop M (m_lru c)"
  have split: "m_lru c = kept @ gone" by (simp add: kept_def gone_def)
  have dl: "distinct (map fst (m_lru c))" and dt: "distinct (map fst (m_table c))"
    and tab: "set (m_table c) = (\<lambda>(h, page). (m_key page, h)) ` set (m_lru c)"
    using wf by (simp_all add: cache_wf_def)
  have disj: "set kept \<inter> set gone = {}"
    using dl unfolding split by (auto dest: eq_key_imp_eq_value simp add: rev_image_eqI)
  have l': "m_lru c' = kept" using c'(2) k by (simp add: kept_def)
  have t': "m_table c' = filter (\<lambda>e. fst e \<notin> (m_key \<circ> snd) ` set gone) (m_table c)"
    using c'(3) k by (simp add: gone_def)
  have "set (m_table c') = (\<lambda>(h, page). (m_key page, h)) ` set kept"
  proof (intro set_eqI iffI)
    fix e assume "e \<in> set (m_table c')"
    then have e: "e \<in> set (m_table c)" "fst e \<notin> (m_key \<circ> snd) ` set gone"
      unfolding t' by simp_all
    then obtain h page where hp: "(h, page) \<in> set (m_lru c)" "e = (m_key page, h)"
      unfolding tab by auto
    then have "(h, page) \<notin> set gone" using e(2) by force
    then have "(h, page) \<in> set kept" using hp(1) unfolding split by simp
    then show "e \<in> (\<lambda>(h, page). (m_key page, h)) ` set kept" using hp(2) by force
  next
    fix e assume "e \<in> (\<lambda>(h, page). (m_key page, h)) ` set kept"
    then obtain h page where hp: "(h, page) \<in> set kept" "e = (m_key page, h)" by auto
    then have in_lru: "(h, page) \<in> set (m_lru c)" unfolding split by simp
    then have "e \<in> set (m_table c)" unfolding tab using hp(2) by force
    moreover have "fst e \<notin> (m_key \<circ> snd) ` set gone"
    proof
      assume "fst e \<in> (m_key \<circ> snd) ` set gone"
      then obtain h2 p2 where g: "(h2, p2) \<in> set gone" "m_key p2 = m_key page"
        using hp(2) by auto
      then have "(h2, p2) \<in> set (m_lru c)" unfolding split by simp
      from wf_inj_key[OF wf in_lru this] g(2) have "(h, page) = (h2, p2)" by simp
      then show False using disj hp(1) g(1) by auto
    qed
    ultimately show "e \<in> set (m_table c')" unfolding t' by simp
  qed
  moreover have "distinct (map fst (m_lru c'))"
    unfolding l' kept_def using dl by (simp add: take_map[symmetric] distinct_take)
  moreover have "distinct (map fst (m_table c'))"
    unfolding t' using dt by (simp add: distinct_map_filter)
  ultimately have "cache_wf c'" by (simp add: cache_wf_def l')
  then show ?thesis using adm c'(1,4,5,6) l' by (simp add: kept_def M_def)
qed

lemma Page_set_dirty_fields:
  "m_key (Page_set_dirty p b) = m_key p"
  "m_data (Page_set_dirty p b) = m_data p"
  "Page_size (Page_set_dirty p b) = Page_size p"
  "Page_is_dirty (Page_set_dirty p True)"
proof -
  show "m_key (Page_set_dirty p b) = m_key p" "m_data (Page_set_dirty p b) = m_data p"
    by (simp_all add: Page_set_dirty_def)
  have "(m_size p OR dirty_bit) AND NOT dirty_bit = m_size p AND NOT dirty_bit"
    by (rule bit_word_eqI) (auto simp add: bit_simps)
  then show "Page_size (Page_set_dirty p b) = Page_size p"
    by (simp add: Page_set_dirty_def Page_size_def word_bw_assocs)
  have "dirty_bit \<noteq> 0" by (simp add: dirty_bit_def)
  then show "Page_is_dirty (Page_set_dirty p True)"
    by (simp add: Page_set_dirty_def Page_is_dirty_def word_bw_comms word_bw_lcs word_ao_absorbs)
qed

lemma unat_min_word:
  fixes x y :: "'a::len word"
  shows "unat (min x y) = min (unat x) (unat y)"
  by (simp add: min_def word_le_nat_alt)

lemma request_words:
  fixes Pw offset :: usize and src :: "byte list" and j :: nat
  defines "P \<equiv> unat Pw" and "off \<equiv> unat offset" and "n \<equiv> length src"
  defines "lo_w \<equiv> (if (of_nat j :: usize) = of_nat (off div P) then offset mod Pw else 0)"
  defines "a \<equiv> bytes_before P off n j"
  assumes P: "0 < P" and n: "0 < n" and ov: "off + n < 2 ^ 64"
    and j: "off div P \<le> j" "j \<le> (off + n - 1) div P"
  shows "unat (of_nat j :: usize) = j"
    and "unat lo_w = page_offset P off j"
    and "unat (of_nat a :: usize) = a"
    and "unat (min (Pw - lo_w) (of_nat n - of_nat a))
           = bytes_before P off n (Suc j) - a"
    and "(of_nat a :: usize) + min (Pw - lo_w) (of_nat n - of_nat a)
           = of_nat (bytes_before P off n (Suc j))"
proof -
  have "j \<le> off + n - 1" using j(2) by (meson div_le_dividend order_trans)
  then have j64: "j < 2 ^ 64" using ov by linarith
  then show uj: "unat (of_nat j :: usize) = j" by (simp add: unat_of_nat)
  have s64: "off div P < 2 ^ 64" using j(1) j64 by linarith
  then have us: "unat (of_nat (off div P) :: usize) = off div P" by (simp add: unat_of_nat)
  have eq: "(of_nat j :: usize) = of_nat (off div P) \<longleftrightarrow> j = off div P"
    using uj us by metis
  show lo: "unat lo_w = page_offset P off j"
    using j(1) P unfolding lo_w_def eq
    by (auto simp add: page_offset_eq unat_mod P_def off_def)
  note sa = slice_arith[OF P n j]
  have a_le: "a \<le> n" using sa(1) by (simp add: a_def)
  have n64: "n < 2 ^ 64" using ov by linarith
  then have a64: "a < 2 ^ 64" using a_le by linarith
  then show ua: "unat (of_nat a :: usize) = a" by (simp add: unat_of_nat)
  have "lo_w \<le> Pw" using lo sa(6) by (simp add: word_le_nat_alt P_def)
  then have u1: "unat (Pw - lo_w) = P - page_offset P off j"
    using lo by (simp add: unat_sub P_def)
  have "(of_nat n :: usize) - of_nat a = of_nat (n - a)"
    using a_le by (simp only: of_nat_diff)
  moreover have "n - a < 2 ^ 64" using n64 by linarith
  ultimately have u2: "unat ((of_nat n :: usize) - of_nat a) = n - a"
    by (simp add: unat_of_nat)
  show w: "unat (min (Pw - lo_w) (of_nat n - of_nat a)) = bytes_before P off n (Suc j) - a"
    unfolding unat_min_word u1 u2 using sa(2) by (simp add: a_def)
  have "min (Pw - lo_w) (of_nat n - of_nat a) = (of_nat (bytes_before P off n (Suc j) - a) :: usize)"
    using w by (metis of_nat_unat ucast_id)
  then have "(of_nat a :: usize) + min (Pw - lo_w) (of_nat n - of_nat a)
               = of_nat (a + (bytes_before P off n (Suc j) - a))"
    by simp
  also have "a + (bytes_before P off n (Suc j) - a) = bytes_before P off n (Suc j)"
    using sa(3) by (simp add: a_def)
  finally show "(of_nat a :: usize) + min (Pw - lo_w) (of_nat n - of_nat a)
           = of_nat (bytes_before P off n (Suc j))" .
qed

lemma written_front_keys:
  assumes "written_front id' P off src s j front" "(h, page) \<in> set front"
  shows "\<exists>i. s \<le> i \<and> i < j \<and> m_key page = PageKey id' (of_nat i)"
proof -
  from assms(2) obtain k where k: "k < length front" "front ! k = (h, page)"
    by (auto simp add: in_set_conv_nth)
  have len: "length front = length (rev [s..<j])"
    using assms(1) by (simp add: written_front_def list_all2_lengthD)
  have "(\<lambda>(h, page) i. m_key page = PageKey id' (of_nat i) \<and> holds_slice P off src i page)
          (front ! k) (rev [s..<j] ! k)"
    using assms(1) k(1) unfolding written_front_def by (rule list_all2_nthD)
  then have "m_key page = PageKey id' (of_nat (rev [s..<j] ! k))" using k(2) by simp
  moreover have "rev [s..<j] ! k \<in> set [s..<j]"
    using k(1) len by (metis nth_mem set_rev)
  ultimately show ?thesis by auto
qed

lemma buffers_sizedD:
  assumes "buffers_sized c" "(h, page) \<in> set (m_lru c)"
  shows "length (m_data page) = unat (m_page_size c)"
  using assms by (auto simp add: buffers_sized_def list_all_iff)

lemma write_page_target:
  fixes c :: Cache
  defines "P \<equiv> unat (m_page_size c)"
  assumes wf: "cache_wf c" and bs: "buffers_sized c"
    and lru: "m_lru c = front @ rest"
    and front: "written_front id' P off src s j front"
    and j64: "j < 2 ^ 64"
  shows "\<exists>c1 h p.
      (case map_of (m_table c) (PageKey id' (of_nat j)) of
         Some h \<Rightarrow> (c, h)
       | None \<Rightarrow>
           let h = new_node c
           in (c\<lparr>m_lru := (h, \<lparr>m_key = PageKey id' (of_nat j),
                               m_data = replicate (unat (m_page_size c)) 0,
                               m_size = 0\<rparr>) # m_lru c,
                 m_table := emplace (PageKey id' (of_nat j)) h (m_table c)\<rparr>, h)) = (c1, h)
    \<and> cache_wf c1 \<and> buffers_sized c1 \<and> m_queue c1 = m_queue c
    \<and> m_page_size c1 = m_page_size c \<and> m_max_pages c1 = m_max_pages c
    \<and> map_of (m_lru c1) h = Some p \<and> m_key p = PageKey id' (of_nat j)
    \<and> length (m_data p) = P
    \<and> AList.delete h (m_lru c1) = front @ AList.delete h rest"
proof -
  define key where "key = PageKey id' (of_nat j :: usize)"
  have dl: "distinct (map fst (m_lru c))" and dt: "distinct (map fst (m_table c))"
    and tab: "set (m_table c) = (\<lambda>(h, page). (m_key page, h)) ` set (m_lru c)"
    using wf by (simp_all add: cache_wf_def)
  show ?thesis
  proof (cases "map_of (m_table c) key")
    case None
    define h where "h = new_node c"
    define p where "p = \<lparr>m_key = key, m_data = replicate (unat (m_page_size c)) 0, m_size = 0\<rparr>"
    define c1 where "c1 = c\<lparr>m_lru := (h, p) # m_lru c, m_table := emplace key h (m_table c)\<rparr>"
    have fresh: "h \<notin> fst ` set (m_lru c)" unfolding h_def by (rule new_node_fresh)
    have knew: "key \<notin> fst ` set (m_table c)" using None by (simp add: map_of_eq_None_iff)
    have t1: "m_table c1 = (key, h) # m_table c" using None by (simp add: c1_def emplace_def)
    have l1: "m_lru c1 = (h, p) # m_lru c" by (simp add: c1_def)
    have "cache_wf c1"
      unfolding cache_wf_def t1 l1 using dl dt tab fresh knew by (auto simp add: p_def)
    moreover have "buffers_sized c1"
      using bs by (simp add: buffers_sized_def c1_def p_def)
    moreover have "AList.delete h (m_lru c1) = front @ AList.delete h rest"
    proof -
      have "h \<notin> fst ` set front" "h \<notin> fst ` set rest" using fresh unfolding lru by auto
      then show ?thesis unfolding l1 lru by (simp add: delete_append_notin)
    qed
    ultimately show ?thesis
      using None unfolding key_def[symmetric]
      by (simp add: Let_def h_def[symmetric] p_def[symmetric] c1_def[symmetric] l1)
        (simp add: c1_def p_def P_def)
  next
    case (Some h)
    then have "(key, h) \<in> set (m_table c)" by (simp add: map_of_SomeD)
    then obtain p where p: "(h, p) \<in> set (m_lru c)" "m_key p = key"
      unfolding tab by auto
    have mp: "map_of (m_lru c) h = Some p" using p(1) dl by simp
    have lp: "length (m_data p) = P" using buffers_sizedD[OF bs p(1)] by (simp add: P_def)
    have "h \<notin> fst ` set front"
    proof
      assume "h \<in> fst ` set front"
      then obtain p2 where p2: "(h, p2) \<in> set front" by auto
      then have "(h, p2) \<in> set (m_lru c)" using lru by simp
      then have "p2 = p" using p(1) eq_key_imp_eq_value[OF dl] by blast
      then obtain i where i: "i < j" "key = PageKey id' (of_nat i)"
        using written_front_keys[OF front p2] p(2) by auto
      then have "(of_nat i :: usize) = of_nat j" by (simp add: key_def)
      then have "unat (of_nat i :: usize) = unat (of_nat j :: usize)" by simp
      then show False using i(1) j64 by (simp add: unat_of_nat)
    qed
    then have "AList.delete h (m_lru c) = front @ AList.delete h rest"
      unfolding lru by (rule delete_append_notin)
    then show ?thesis
      using Some wf bs mp p(2) lp unfolding key_def[symmetric] by simp
  qed
qed

lemma write_page_Value:
  assumes "queued c (PageKey id' index) = Value ()"
    and "(case map_of (m_table c) (PageKey id' index) of
         Some h \<Rightarrow> (c, h)
       | None \<Rightarrow>
           let h = new_node c
           in (c\<lparr>m_lru := (h, \<lparr>m_key = PageKey id' index,
                               m_data = replicate (unat (m_page_size c)) 0,
                               m_size = 0\<rparr>) # m_lru c,
                 m_table := emplace (PageKey id' index) h (m_table c)\<rparr>, h)) = (c1, h)"
    and "lo = (if index = start then offset mod m_page_size c else 0)"
    and "write = min (m_page_size c - lo) (of_nat (length inp) - tot)"
    and "spn = take (unat write) (drop (unat tot) inp)"
    and "length spn = unat write"
    and "map_of (m_lru c1) h = Some page"
    and "Page_write page spn lo = Some (x, page')"
    and "touch h (AList.update h (Page_set_dirty page' True) (m_lru c1)) = Some lru"
    and "admit (c1\<lparr>m_lru := lru\<rparr>) = Some c2"
  shows "write_page id' inp offset start index (c, tot) = Some (Value (), c2, tot + write)"
  using assms(1,2,6-10) unfolding write_page_def assms(3,4,5)
  by (simp add: Let_def)

lemma write_page_step:
  fixes c :: Cache and offset :: off_t and src :: "byte list"
  defines "P \<equiv> unat (m_page_size c)" and "off \<equiv> unat offset" and "n \<equiv> length src"
  assumes wf: "cache_wf c" and bs: "buffers_sized c" and q: "m_queue c = []"
    and P: "0 < P" "P < 2 ^ 28" and n: "0 < n" and ov: "off + n < 2 ^ 64"
    and j: "off div P \<le> j" "j \<le> (off + n - 1) div P"
    and lru: "m_lru c = front @ rest"
    and front: "written_front id' P off src (off div P) j front"
    and room: "length front < unat (m_max_pages c)"
  shows "\<exists>c' h page rest'.
           write_page id' src offset (of_nat (off div P)) (of_nat j)
               (c, of_nat (bytes_before P off n j))
             = Some (Value (), c', of_nat (bytes_before P off n (Suc j)))
         \<and> cache_wf c' \<and> buffers_sized c' \<and> m_queue c' = []
         \<and> m_page_size c' = m_page_size c \<and> m_max_pages c' = m_max_pages c
         \<and> m_lru c' = (h, page) # front @ rest'
         \<and> m_key page = PageKey id' (of_nat j) \<and> holds_slice P off src j page"
proof -
  define Pw where "Pw = m_page_size c"
  define key where "key = PageKey id' (of_nat j :: usize)"
  define lo_w where "lo_w = (if (of_nat j :: usize) = of_nat (off div P) then offset mod Pw else 0)"
  define a where "a = bytes_before P off n j"
  define b where "b = bytes_before P off n (Suc j)"
  define write_w where "write_w = min (Pw - lo_w) (of_nat n - of_nat a)"
  define span where "span = take (unat write_w) (drop (unat (of_nat a :: usize)) src)"
  have PPw: "P = unat Pw" by (simp add: P_def Pw_def)
  note rw = request_words[of Pw src offset j, folded PPw off_def n_def,
      folded lo_w_def a_def b_def, folded write_w_def, OF P(1) n ov j]
  note sa = slice_arith[OF P(1) n j, folded a_def b_def]
  have "j \<le> off + n - 1" using j(2) by (meson div_le_dividend order_trans)
  then have j64: "j < 2 ^ 64" using ov by linarith
  have uw: "unat write_w = b - a" using rw(4) .
  have ab: "a < b" "b \<le> n" using sa(3,4) by simp_all
  have span_len: "length span = b - a"
    unfolding span_def rw(3) uw using ab by (simp add: n_def)
  have span_eq: "span = take (b - a) (drop a src)"
    unfolding span_def rw(3) uw ..
  from write_page_target[OF wf bs lru front[unfolded P_def] j64]
  obtain c1 h p where
    sel0: "(case map_of (m_table c) (PageKey id' (of_nat j)) of
         Some h \<Rightarrow> (c, h)
       | None \<Rightarrow>
           let h = new_node c
           in (c\<lparr>m_lru := (h, \<lparr>m_key = PageKey id' (of_nat j),
                               m_data = replicate (unat (m_page_size c)) 0,
                               m_size = 0\<rparr>) # m_lru c,
                 m_table := emplace (PageKey id' (of_nat j)) h (m_table c)\<rparr>, h)) = (c1, h)"
    and wf1: "cache_wf c1" and bs1: "buffers_sized c1" and q1: "m_queue c1 = m_queue c"
    and ps1: "m_page_size c1 = m_page_size c" and mp1: "m_max_pages c1 = m_max_pages c"
    and hp: "map_of (m_lru c1) h = Some p" and kp0: "m_key p = PageKey id' (of_nat j)"
    and lp0: "length (m_data p) = unat (m_page_size c)"
    and del: "AList.delete h (m_lru c1) = front @ AList.delete h rest"
    by blast
  note sel = sel0[folded key_def Pw_def]
  have kp: "m_key p = key" using kp0 by (simp add: key_def)
  have lp: "length (m_data p) = P" using lp0 by (simp add: P_def)
  have fits: "unat lo_w + length span \<le> length (m_data p)"
    using sa(5) unfolding rw(2) span_len lp by simp
  then have small: "unat lo_w + length span < 2 ^ 28" using P(2) lp by linarith
  from Page_write_effect[OF fits small] obtain p' where
    pw: "Page_write p span lo_w = Some (of_nat (length span), p')"
    and p'k: "m_key p' = m_key p" and p'l: "length (m_data p') = length (m_data p)"
    and p'd: "take (length span) (drop (unat lo_w) (m_data p')) = span"
    and p's: "unat (Page_size p') = unat lo_w + length span"
    by blast
  define p'' where "p'' = Page_set_dirty p' True"
  have d': "take (b - a) (drop (page_offset P off j) (m_data p')) = span"
    using p'd unfolding span_len rw(2) .
  have s': "unat (Page_size p') = page_offset P off j + (b - a)"
    using p's unfolding span_len rw(2) .
  have hs: "holds_slice P off src j p''"
    unfolding holds_slice_def Let_def p''_def Page_set_dirty_fields
      n_def[symmetric] a_def[symmetric] b_def[symmetric] span_eq[symmetric]
    using p'l lp s' d' by simp
  have k'': "m_key p'' = key" by (simp add: p''_def Page_set_dirty_fields p'k kp)
  have l'': "length (m_data p'') = P" by (simp add: p''_def Page_set_dirty_fields p'l lp)
  define lru_u where "lru_u = AList.update h p'' (m_lru c1)"
  have dl1: "distinct (map fst (m_lru c1))" using wf1 by (simp add: cache_wf_def)
  have "distinct (map fst lru_u)" unfolding lru_u_def using dl1 by (rule distinct_update)
  moreover have "map_of lru_u h = Some p''" by (simp add: lru_u_def update_conv')
  ultimately have "touch h lru_u = Some ((h, p'') # AList.delete h lru_u)"
    by (rule touch_eq)
  then have tch: "touch h lru_u = Some ((h, p'') # front @ AList.delete h rest)"
    unfolding lru_u_def delete_update_same del .
  define c2 where "c2 = c1\<lparr>m_lru := (h, p'') # front @ AList.delete h rest\<rparr>"
  have in1: "(h, p) \<in> set (m_lru c1)" using hp by (rule map_of_SomeD)
  have set_del: "set (front @ AList.delete h rest) = set (m_lru c1) - {(h, p)}"
    using set_delete_distinct[OF dl1 in1] del by simp
  have wf2: "cache_wf c2"
  proof -
    have "distinct (map fst (front @ AList.delete h rest))"
      using distinct_delete[OF dl1, of h] del by simp
    moreover have "h \<notin> fst ` set (front @ AList.delete h rest)"
      using delete_notin_dom[of h "m_lru c1"] del by simp
    ultimately have d2: "distinct (map fst (m_lru c2))" by (simp add: c2_def image_Un)
    have "(\<lambda>(h, page). (m_key page, h)) ` set (m_lru c2)
            = insert (key, h) ((\<lambda>(h, page). (m_key page, h)) ` (set (m_lru c1) - {(h, p)}))"
      unfolding c2_def using set_del k'' by simp
    also have "\<dots> = (\<lambda>(h, page). (m_key page, h)) ` set (m_lru c1)"
      using in1 kp by force
    finally show ?thesis using wf1 d2 by (simp add: cache_wf_def c2_def)
  qed
  have bs2: "buffers_sized c2"
  proof -
    have "\<forall>(h', page) \<in> set (m_lru c1). length (m_data page) = unat (m_page_size c1)"
      using bs1 by (simp add: buffers_sized_def list_all_iff)
    then have "\<forall>(h', page) \<in> set (front @ AList.delete h rest).
                  length (m_data page) = unat (m_page_size c1)"
      using set_del by auto
    then show ?thesis using l'' ps1
      by (simp add: buffers_sized_def list_all_iff c2_def P_def)
  qed
  from admit_effect[OF wf2] obtain c3 where
    adm: "admit c2 = Some c3" and l3: "m_lru c3 = take (unat (m_max_pages c2)) (m_lru c2)"
    and wf3: "cache_wf c3" and q3: "m_queue c3 = m_queue c2"
    and ps3: "m_page_size c3 = m_page_size c2" and mp3: "m_max_pages c3 = m_max_pages c2"
    by blast
  define M where "M = unat (m_max_pages c)"
  have m2: "unat (m_max_pages c2) = M" by (simp add: c2_def mp1 M_def)
  obtain k where k: "M = Suc (length front + k)"
    using room unfolding M_def[symmetric] by (metis less_iff_Suc_add)
  have l3': "m_lru c3 = (h, p'') # front @ take k (AList.delete h rest)"
    unfolding l3 m2 k by (simp add: c2_def)
  have bs3: "buffers_sized c3"
  proof -
    have "set (m_lru c3) \<subseteq> set (m_lru c2)" unfolding l3 by (rule set_take_subset)
    then show ?thesis using bs2 ps3 by (auto simp add: buffers_sized_def list_all_iff)
  qed
  have qd: "queued c key = Value ()" by (simp add: queued_def q)
  have "write_page id' src offset (of_nat (off div P)) (of_nat j) (c, of_nat a)
               = Some (Value (), c3, of_nat a + write_w)"
  proof (rule write_page_Value)
    show "queued c (PageKey id' (of_nat j)) = Value ()" using qd by (simp add: key_def)
    show "(case map_of (m_table c) (PageKey id' (of_nat j)) of
         Some h \<Rightarrow> (c, h)
       | None \<Rightarrow>
           let h = new_node c
           in (c\<lparr>m_lru := (h, \<lparr>m_key = PageKey id' (of_nat j),
                               m_data = replicate (unat (m_page_size c)) 0,
                               m_size = 0\<rparr>) # m_lru c,
                 m_table := emplace (PageKey id' (of_nat j)) h (m_table c)\<rparr>, h)) = (c1, h)"
      by (rule sel0)
    show "lo_w = (if (of_nat j :: usize) = of_nat (off div P) then offset mod m_page_size c else 0)"
      by (simp add: lo_w_def Pw_def)
    show "write_w = min (m_page_size c - lo_w) (of_nat (length src) - of_nat a)"
      by (simp add: write_w_def Pw_def n_def)
    show "span = take (unat write_w) (drop (unat (of_nat a :: usize)) src)"
      by (rule span_def)
    show "length span = unat write_w" using span_len uw by simp
    show "map_of (m_lru c1) h = Some p" by (rule hp)
    show "Page_write p span lo_w = Some (of_nat (length span), p')" by (rule pw)
    show "touch h (AList.update h (Page_set_dirty p' True) (m_lru c1))
            = Some ((h, p'') # front @ AList.delete h rest)"
      using tch by (simp add: lru_u_def p''_def)
    show "admit (c1\<lparr>m_lru := (h, p'') # front @ AList.delete h rest\<rparr>) = Some c3"
      using adm by (simp add: c2_def)
  qed
  then have run: "write_page id' src offset (of_nat (off div P)) (of_nat j) (c, of_nat a)
               = Some (Value (), c3, of_nat b)"
    using rw(5) by simp
  show ?thesis
    unfolding a_def[symmetric] b_def[symmetric]
    using run wf3 bs3 q3 ps3 mp3 l3' k'' hs q1 q ps1 mp1
    by (auto simp add: c2_def key_def)
qed

lemma written_front_Suc:
  assumes "written_front id' P off src s j front" "s \<le> j"
    and "m_key page = PageKey id' (of_nat j)" "holds_slice P off src j page"
  shows "written_front id' P off src s (Suc j) ((h, page) # front)"
  using assms by (simp add: written_front_def)

lemma write_loop_all:
  fixes offset :: off_t and src :: "byte list"
  assumes P: "0 < P" "P < 2 ^ 28" and n: "0 < length src"
    and ov: "unat offset + length src < 2 ^ 64"
    and l: "l = (unat offset + length src - 1) div P"
  shows "cache_wf c \<Longrightarrow> buffers_sized c \<Longrightarrow> m_queue c = [] \<Longrightarrow> unat (m_page_size c) = P
     \<Longrightarrow> unat offset div P \<le> j \<Longrightarrow> j \<le> Suc l
     \<Longrightarrow> m_lru c = front @ rest
     \<Longrightarrow> written_front id' P (unat offset) src (unat offset div P) j front
     \<Longrightarrow> length front + (Suc l - j) \<le> unat (m_max_pages c)
     \<Longrightarrow> \<exists>c' front' rest'.
           write_loop id' src offset (of_nat (unat offset div P)) (map of_nat [j..<Suc l])
               (c, of_nat (bytes_before P (unat offset) (length src) j))
             = Some (Value (of_nat (bytes_before P (unat offset) (length src) (Suc l))), c',
                     of_nat (bytes_before P (unat offset) (length src) (Suc l)))
         \<and> cache_wf c' \<and> buffers_sized c' \<and> m_queue c' = []
         \<and> m_page_size c' = m_page_size c \<and> m_max_pages c' = m_max_pages c
         \<and> m_lru c' = front' @ rest'
         \<and> written_front id' P (unat offset) src (unat offset div P) (Suc l) front'"
proof (induction "Suc l - j" arbitrary: j c front rest)
  case 0
  then have "j = Suc l" by simp
  then show ?case using 0 by auto
next
  case (Suc k)
  then have jl: "j \<le> l" by simp
  have upt: "[j..<Suc l] = j # [Suc j..<Suc l]" using jl by (simp add: upt_conv_Cons)
  have room: "length front < unat (m_max_pages c)" using Suc.prems(9) jl by simp
  from write_page_step[where c=c and offset=offset and src=src and j=j and front=front
      and rest=rest and id'=id', unfolded Suc.prems(4),
      OF Suc.prems(1,2,3) P n ov Suc.prems(5) jl[unfolded l] Suc.prems(7,8) room]
  obtain c1 h page rest1 where
    step: "write_page id' src offset (of_nat (unat offset div P)) (of_nat j)
               (c, of_nat (bytes_before P (unat offset) (length src) j))
             = Some (Value (), c1, of_nat (bytes_before P (unat offset) (length src) (Suc j)))"
    and c1: "cache_wf c1" "buffers_sized c1" "m_queue c1 = []"
      "m_page_size c1 = m_page_size c" "m_max_pages c1 = m_max_pages c"
    and l1: "m_lru c1 = (h, page) # front @ rest1"
    and pg: "m_key page = PageKey id' (of_nat j)" "holds_slice P (unat offset) src j page"
    by blast
  have wfS: "written_front id' P (unat offset) src (unat offset div P) (Suc j) ((h, page) # front)"
    using written_front_Suc[OF Suc.prems(8) Suc.prems(5) pg] .
  have k: "k = Suc l - Suc j" using Suc.hyps(2) by simp
  have l1': "m_lru c1 = ((h, page) # front) @ rest1" using l1 by simp
  have room1: "length ((h, page) # front) + (Suc l - Suc j) \<le> unat (m_max_pages c1)"
    using Suc.prems(9) jl c1(5) by simp
  have P1: "unat (m_page_size c1) = P" using c1(4) Suc.prems(4) by simp
  have j1: "unat offset div P \<le> Suc j" "Suc j \<le> Suc l" using Suc.prems(5) jl by simp_all
  from Suc.hyps(1)[OF k c1(1,2,3) P1 j1 l1' wfS room1]
  obtain c' front' rest' where
    rest: "write_loop id' src offset (of_nat (unat offset div P)) (map of_nat [Suc j..<Suc l])
               (c1, of_nat (bytes_before P (unat offset) (length src) (Suc j)))
             = Some (Value (of_nat (bytes_before P (unat offset) (length src) (Suc l))), c',
                     of_nat (bytes_before P (unat offset) (length src) (Suc l)))"
    and c': "cache_wf c'" "buffers_sized c'" "m_queue c' = []"
      "m_page_size c' = m_page_size c1" "m_max_pages c' = m_max_pages c1"
      "m_lru c' = front' @ rest'"
      "written_front id' P (unat offset) src (unat offset div P) (Suc l) front'"
    by blast
  have "write_loop id' src offset (of_nat (unat offset div P)) (map of_nat [j..<Suc l])
               (c, of_nat (bytes_before P (unat offset) (length src) j))
             = Some (Value (of_nat (bytes_before P (unat offset) (length src) (Suc l))), c',
                     of_nat (bytes_before P (unat offset) (length src) (Suc l)))"
    unfolding upt using step rest by simp
  then show ?case using c' c1(4,5) by auto
qed

lemma read_page_hit:
  assumes "queued c (PageKey id' index) = Value ()"
    and "map_of (m_table c) (PageKey id' index) = Some h"
    and "touch h (m_lru c) = Some lru"
    and "map_of lru h = Some page"
    and "lo = (if index = start then offset mod m_page_size c else 0)"
    and "Page_read page (drop (unat tot) out) lo = Some (k, out_sub)"
  shows "read_page on_miss id' offset start index (c, out, tot, ms)
           = Some (Value (), c\<lparr>m_lru := lru\<rparr>, take (unat tot) out @ out_sub, tot + k, ms)"
  using assms(1-4,6) unfolding read_page_def read_from_page_def assms(5)
  by (simp add: Let_def)

lemma touch_map_of:
  assumes "distinct (map fst lru)" "map_of lru h = Some page"
  shows "map_of ((h, page) # AList.delete h lru) = map_of lru"
  using assms(2) by (auto simp add: delete_conv' fun_eq_iff)

lemma read_page_step:
  fixes c :: Cache and offset :: off_t and src dst :: "byte list"
  defines "P \<equiv> unat (m_page_size c)" and "off \<equiv> unat offset" and "n \<equiv> length src"
  assumes wf: "cache_wf c" and q: "m_queue c = []"
    and P: "0 < P" and n: "0 < n" and ov: "off + n < 2 ^ 64"
    and j: "off div P \<le> j" "j \<le> (off + n - 1) div P"
    and res: "resident c (PageKey id' (of_nat j)) = Some page"
    and hs: "holds_slice P off src j page"
    and len: "length dst = n"
  shows "\<exists>c'. read_page on_miss id' offset (of_nat (off div P)) (of_nat j)
               (c, take (bytes_before P off n j) src @ drop (bytes_before P off n j) dst,
                of_nat (bytes_before P off n j), ms)
             = Some (Value (), c',
                     take (bytes_before P off n (Suc j)) src
                       @ drop (bytes_before P off n (Suc j)) dst,
                     of_nat (bytes_before P off n (Suc j)), ms)
         \<and> cache_wf c' \<and> m_queue c' = [] \<and> m_page_size c' = m_page_size c
         \<and> resident c' = resident c"
proof -
  define Pw where "Pw = m_page_size c"
  define key where "key = PageKey id' (of_nat j :: usize)"
  define lo_w where "lo_w = (if (of_nat j :: usize) = of_nat (off div P) then offset mod Pw else 0)"
  define a where "a = bytes_before P off n j"
  define b where "b = bytes_before P off n (Suc j)"
  define out where "out = take a src @ drop a dst"
  have PPw: "P = unat Pw" by (simp add: P_def Pw_def)
  note rw = request_words[of Pw src offset j, folded PPw off_def n_def,
      folded lo_w_def a_def b_def, OF P n ov j]
  note sa = slice_arith[OF P n j, folded a_def b_def]
  have ab: "a < b" "b \<le> n" "a \<le> n" using sa(1,3,4) by simp_all
  have n64: "n < 2 ^ 64" using ov by linarith
  obtain h where h: "map_of (m_table c) key = Some h" "map_of (m_lru c) h = Some page"
    using res by (auto simp add: resident_def key_def split: option.splits)
  have dl: "distinct (map fst (m_lru c))" using wf by (simp add: cache_wf_def)
  define lru where "lru = (h, page) # AList.delete h (m_lru c)"
  have tch: "touch h (m_lru c) = Some lru" unfolding lru_def using dl h(2) by (rule touch_eq)
  have mo: "map_of lru = map_of (m_lru c)" unfolding lru_def using dl h(2) by (rule touch_map_of)
  have hd: "map_of lru h = Some page" by (simp add: lru_def)
  have pl: "length (m_data page) = P"
    and psz: "unat (Page_size page) = page_offset P off j + (b - a)"
    and pd: "take (b - a) (drop (page_offset P off j) (m_data page)) = take (b - a) (drop a src)"
    using hs unfolding holds_slice_def Let_def n_def[symmetric] a_def[symmetric] b_def[symmetric]
    by simp_all
  have out_len: "length out = n" using ab(3) len by (simp add: out_def n_def)
  have dro: "drop (unat (of_nat a :: usize)) out = drop a dst"
    unfolding rw(3) out_def using ab(3) by (simp add: n_def)
  have tko: "take (unat (of_nat a :: usize)) out = take a src"
    unfolding rw(3) out_def using ab(3) by (simp add: n_def)
  have dlen: "length (drop a dst) = n - a" using len by simp
  have le: "lo_w \<le> Page_size page" using psz rw(2) by (simp add: word_le_nat_alt)
  have inb: "unat (Page_size page) \<le> length (m_data page)" using psz pl sa(5) by simp
  have cnt: "min (unat (Page_size page) - unat lo_w) (length (drop a dst)) = b - a"
    unfolding psz rw(2) dlen using ab by simp
  have "length (drop a dst) < 2 ^ 64" using dlen n64 by simp
  from Page_read_effect[OF this inb le, unfolded cnt]
  have rd: "Page_read page (drop a dst) lo_w
         = Some (of_nat (b - a), take (b - a) (drop (unat lo_w) (m_data page)) @ drop (b - a) (drop a dst))" .
  have bytes: "take a src @ take (b - a) (drop (unat lo_w) (m_data page)) @ drop (b - a) (drop a dst)
                 = take b src @ drop b dst"
  proof -
    have "take b src = take a src @ take (b - a) (drop a src)"
      using ab(1) by (metis le_add_diff_inverse less_imp_le_nat take_add)
    moreover have "drop (b - a) (drop a dst) = drop b dst" using ab(1) by simp
    ultimately show ?thesis using pd unfolding rw(2) by simp
  qed
  have tot: "(of_nat a :: usize) + of_nat (b - a) = of_nat b"
    using ab(1) by (metis le_add_diff_inverse less_imp_le_nat of_nat_add)
  define c' where "c' = c\<lparr>m_lru := lru\<rparr>"
  have "read_page on_miss id' offset (of_nat (off div P)) (of_nat j) (c, out, of_nat a, ms)
          = Some (Value (), c\<lparr>m_lru := lru\<rparr>,
                  take (unat (of_nat a :: usize)) out
                    @ (take (b - a) (drop (unat lo_w) (m_data page)) @ drop (b - a) (drop a dst)),
                  of_nat a + of_nat (b - a), ms)"
  proof (rule read_page_hit)
    show "queued c (PageKey id' (of_nat j)) = Value ()" by (simp add: queued_def q)
    show "map_of (m_table c) (PageKey id' (of_nat j)) = Some h" using h(1) by (simp add: key_def)
    show "touch h (m_lru c) = Some lru" by (rule tch)
    show "map_of lru h = Some page" by (rule hd)
    show "lo_w = (if (of_nat j :: usize) = of_nat (off div P) then offset mod m_page_size c else 0)"
      by (simp add: lo_w_def Pw_def)
    show "Page_read page (drop (unat (of_nat a :: usize)) out) lo_w
            = Some (of_nat (b - a),
                    take (b - a) (drop (unat lo_w) (m_data page)) @ drop (b - a) (drop a dst))"
      unfolding dro by (rule rd)
  qed
  then have run: "read_page on_miss id' offset (of_nat (off div P)) (of_nat j) (c, out, of_nat a, ms)
          = Some (Value (), c', take b src @ drop b dst, of_nat b, ms)"
    unfolding tko bytes tot c'_def .
  have "cache_wf c'"
  proof -
    have "set lru = set (m_lru c)"
      using set_delete_distinct[OF dl map_of_SomeD[OF h(2)]] map_of_SomeD[OF h(2)]
      by (auto simp add: lru_def)
    moreover have "distinct (map fst lru)"
      using distinct_delete[OF dl, of h] delete_notin_dom[of h "m_lru c"] by (simp add: lru_def)
    ultimately show ?thesis using wf by (simp add: cache_wf_def c'_def)
  qed
  moreover have "resident c' = resident c"
    by (rule ext) (simp add: resident_def c'_def mo split: option.splits)
  ultimately show ?thesis
    using run q unfolding out_def a_def b_def by (auto simp add: c'_def)
qed

lemma read_loop_all:
  fixes offset :: off_t and src dst :: "byte list"
  assumes P: "0 < P" and n: "0 < length src"
    and ov: "unat offset + length src < 2 ^ 64"
    and l: "l = (unat offset + length src - 1) div P"
    and len: "length dst = length src"
  shows "cache_wf c \<Longrightarrow> m_queue c = [] \<Longrightarrow> unat (m_page_size c) = P
     \<Longrightarrow> unat offset div P \<le> j \<Longrightarrow> j \<le> Suc l
     \<Longrightarrow> (\<forall>i. j \<le> i \<and> i \<le> l \<longrightarrow>
            (\<exists>page. resident c (PageKey id' (of_nat i)) = Some page
                  \<and> holds_slice P (unat offset) src i page))
     \<Longrightarrow> \<exists>c'. read_loop on_miss id' offset (of_nat (unat offset div P)) (map of_nat [j..<Suc l])
               (c, take (bytes_before P (unat offset) (length src) j) src
                     @ drop (bytes_before P (unat offset) (length src) j) dst,
                of_nat (bytes_before P (unat offset) (length src) j), ms)
             = Some (Value (of_nat (bytes_before P (unat offset) (length src) (Suc l))), c',
                     take (bytes_before P (unat offset) (length src) (Suc l)) src
                       @ drop (bytes_before P (unat offset) (length src) (Suc l)) dst,
                     of_nat (bytes_before P (unat offset) (length src) (Suc l)), ms)"
proof (induction "Suc l - j" arbitrary: j c)
  case 0
  then have "j = Suc l" by simp
  then show ?case by simp
next
  case (Suc k)
  then have jl: "j \<le> l" by simp
  have upt: "[j..<Suc l] = j # [Suc j..<Suc l]" using jl by (simp add: upt_conv_Cons)
  obtain page where pg: "resident c (PageKey id' (of_nat j)) = Some page"
    "holds_slice P (unat offset) src j page"
    using Suc.prems(6) jl by blast
  from read_page_step[where c=c and offset=offset and src=src and dst=dst and j=j
      and page=page and id'=id' and on_miss=on_miss and ms=ms, unfolded Suc.prems(3),
      OF Suc.prems(1,2) P n ov Suc.prems(4) jl[unfolded l] pg len]
  obtain c1 where
    step: "read_page on_miss id' offset (of_nat (unat offset div P)) (of_nat j)
               (c, take (bytes_before P (unat offset) (length src) j) src
                     @ drop (bytes_before P (unat offset) (length src) j) dst,
                of_nat (bytes_before P (unat offset) (length src) j), ms)
             = Some (Value (), c1,
                     take (bytes_before P (unat offset) (length src) (Suc j)) src
                       @ drop (bytes_before P (unat offset) (length src) (Suc j)) dst,
                     of_nat (bytes_before P (unat offset) (length src) (Suc j)), ms)"
    and c1: "cache_wf c1" "m_queue c1 = []" "m_page_size c1 = m_page_size c"
      "resident c1 = resident c"
    by blast
  have k: "k = Suc l - Suc j" using Suc.hyps(2) by simp
  have P1: "unat (m_page_size c1) = P" using c1(3) Suc.prems(3) by simp
  have j1: "unat offset div P \<le> Suc j" "Suc j \<le> Suc l" using Suc.prems(4) jl by simp_all
  have res1: "\<forall>i. Suc j \<le> i \<and> i \<le> l \<longrightarrow>
            (\<exists>page. resident c1 (PageKey id' (of_nat i)) = Some page
                  \<and> holds_slice P (unat offset) src i page)"
    using Suc.prems(6) c1(4) by simp
  from Suc.hyps(1)[OF k c1(1,2) P1 j1 res1]
  obtain c' where
    rest: "read_loop on_miss id' offset (of_nat (unat offset div P)) (map of_nat [Suc j..<Suc l])
               (c1, take (bytes_before P (unat offset) (length src) (Suc j)) src
                     @ drop (bytes_before P (unat offset) (length src) (Suc j)) dst,
                of_nat (bytes_before P (unat offset) (length src) (Suc j)), ms)
             = Some (Value (of_nat (bytes_before P (unat offset) (length src) (Suc l))), c',
                     take (bytes_before P (unat offset) (length src) (Suc l)) src
                       @ drop (bytes_before P (unat offset) (length src) (Suc l)) dst,
                     of_nat (bytes_before P (unat offset) (length src) (Suc l)), ms)"
    by blast
  show ?case unfolding upt using step rest by auto
qed

lemma written_front_resident:
  assumes wf: "cache_wf c" and lru: "m_lru c = front @ rest"
    and front: "written_front id' P off src s j front"
    and i: "s \<le> i" "i < j"
  shows "\<exists>page. resident c (PageKey id' (of_nat i)) = Some page \<and> holds_slice P off src i page"
proof -
  have "i \<in> set (rev [s..<j])" using i by simp
  then obtain k where k: "k < length (rev [s..<j])" "rev [s..<j] ! k = i"
    by (auto simp add: in_set_conv_nth simp del: set_rev set_upt)
  have len: "length front = length (rev [s..<j])"
    using front by (simp add: written_front_def list_all2_lengthD)
  obtain h page where hp: "front ! k = (h, page)" by (cases "front ! k")
  have kf: "k < length front" using k(1) len by simp
  have "(\<lambda>(h, page) i. m_key page = PageKey id' (of_nat i) \<and> holds_slice P off src i page)
          (front ! k) (rev [s..<j] ! k)"
    using front kf unfolding written_front_def by (rule list_all2_nthD)
  then have pg: "m_key page = PageKey id' (of_nat i)" "holds_slice P off src i page"
    using hp k(2) by simp_all
  have "(h, page) \<in> set front" using hp kf by (metis nth_mem)
  then have "(h, page) \<in> set (m_lru c)" using lru by simp
  then have "resident c (PageKey id' (of_nat i)) = Some page"
    using wf_resident_iff[OF wf] pg(1) by blast
  then show ?thesis using pg(2) by blast
qed

text \<open>
  C8 (as amended). In a well-formed cache with nothing in flight, a page size below
  \<open>2 ^ 28\<close> and a request that does not run past \<open>2 ^ 64\<close> and spans no more pages than
  \<open>max_pages\<close>: \<^verbatim>\<open>write(id, src, off)\<close> with a non-empty \<open>src\<close> returns \<open>|src|\<close>, and the
  \<^verbatim>\<open>read(id, dst, off, on_miss)\<close> with \<open>|dst| = |src|\<close> that follows it returns \<open>|src|\<close>,
  leaves the bytes of \<open>src\<close> in \<open>dst\<close> and does not call \<^verbatim>\<open>on_miss\<close> at all.
\<close>

theorem read_after_write:
  assumes wf: "cache_wf c" and bs: "buffers_sized c" and q: "m_queue c = []"
    and P: "0 < m_page_size c" "unat (m_page_size c) < 2 ^ 28"
    and src: "src \<noteq> []" and ov: "unat offset + length src < 2 ^ 64"
    and dst: "length dst = length src"
    and fit: "(unat offset + length src - 1) div unat (m_page_size c)
                - unat offset div unat (m_page_size c) < unat (m_max_pages c)"
  shows "\<exists>c1 c2.
           Cache_write c id' src offset
             = Some (Value (of_nat (length src)), c1, of_nat (length src))
         \<and> Cache_read c1 id' dst offset on_miss
             = Some (Value (of_nat (length src)), c2, src, of_nat (length src), [])"
proof -
  define Pn where "Pn = unat (m_page_size c)"
  define s where "s = unat offset div Pn"
  define l where "l = (unat offset + length src - 1) div Pn"
  have Pn: "0 < Pn" "Pn < 2 ^ 28" using P by (simp_all add: Pn_def word_less_nat_alt)
  have n: "0 < length src" using src by simp
  have n64: "length src < 2 ^ 64" "unat offset + length src \<le> 2 ^ 64" using ov by linarith+
  have Pnz: "m_page_size c \<noteq> 0" using P(1) by auto
  have start: "start_index (m_page_size c) offset = of_nat s"
  proof -
    have "unat (offset div m_page_size c) = s" by (simp add: unat_div s_def Pn_def)
    then show ?thesis unfolding start_index_def by (metis of_nat_unat ucast_id)
  qed
  have idx: "page_indices (m_page_size c) offset (of_nat (length src)) = map of_nat [s..<Suc l]"
    using page_indices_eq[OF Pnz n n64] by (simp add: s_def l_def Pn_def)
  have b0: "bytes_before Pn (unat offset) (length src) s = 0"
    unfolding s_def using Pn(1) by (rule bytes_before_first)
  have bn: "bytes_before Pn (unat offset) (length src) (Suc l) = length src"
    unfolding l_def using Pn(1) n by (rule bytes_before_end)
  have sl: "s \<le> Suc l"
  proof -
    have "unat offset \<le> unat offset + length src - 1" using n by linarith
    then have "s \<le> l" unfolding s_def l_def by (rule div_le_mono)
    then show ?thesis by simp
  qed
  have room: "length ([] :: (node \<times> Page) list) + (Suc l - s) \<le> unat (m_max_pages c)"
    using fit by (simp add: s_def l_def Pn_def)
  have wf0: "written_front id' Pn (unat offset) src (unat offset div Pn) s []"
    by (simp add: written_front_def s_def)
  have lru0: "m_lru c = [] @ m_lru c" by simp
  from write_loop_all[where P=Pn and l=l and src=src and offset=offset and c=c and j=s
      and front="[]" and rest="m_lru c" and id'=id', folded s_def,
      OF Pn n ov l_def wf bs q Pn_def[symmetric] order_refl sl lru0 wf0[folded s_def] room]
  obtain c1 front rest where
    w: "write_loop id' src offset (of_nat s) (map of_nat [s..<Suc l])
               (c, of_nat (bytes_before Pn (unat offset) (length src) s))
             = Some (Value (of_nat (bytes_before Pn (unat offset) (length src) (Suc l))), c1,
                     of_nat (bytes_before Pn (unat offset) (length src) (Suc l)))"
    and c1: "cache_wf c1" "buffers_sized c1" "m_queue c1 = []"
      "m_page_size c1 = m_page_size c" "m_max_pages c1 = m_max_pages c"
      "m_lru c1 = front @ rest"
      "written_front id' Pn (unat offset) src s (Suc l) front"
    by blast
  have cw: "Cache_write c id' src offset
             = Some (Value (of_nat (length src)), c1, of_nat (length src))"
    using w Pnz unfolding Cache_write_def Let_def start idx b0 bn by (simp del: upt_Suc)
  have res: "\<forall>i. s \<le> i \<and> i \<le> l \<longrightarrow>
            (\<exists>page. resident c1 (PageKey id' (of_nat i)) = Some page
                  \<and> holds_slice Pn (unat offset) src i page)"
    using written_front_resident[OF c1(1,6,7)] by (simp add: less_Suc_eq_le)
  have P1: "unat (m_page_size c1) = Pn" using c1(4) by (simp add: Pn_def)
  from read_loop_all[where P=Pn and l=l and src=src and dst=dst and offset=offset and c=c1
      and j=s and id'=id' and on_miss=on_miss and ms="[]", folded s_def,
      OF Pn(1) n ov l_def dst c1(1,3) P1 order_refl sl res]
  obtain c2 where
    r: "read_loop on_miss id' offset (of_nat s) (map of_nat [s..<Suc l])
               (c1, take (bytes_before Pn (unat offset) (length src) s) src
                     @ drop (bytes_before Pn (unat offset) (length src) s) dst,
                of_nat (bytes_before Pn (unat offset) (length src) s), [])
             = Some (Value (of_nat (bytes_before Pn (unat offset) (length src) (Suc l))), c2,
                     take (bytes_before Pn (unat offset) (length src) (Suc l)) src
                       @ drop (bytes_before Pn (unat offset) (length src) (Suc l)) dst,
                     of_nat (bytes_before Pn (unat offset) (length src) (Suc l)), [])"
    by blast
  have cr: "Cache_read c1 id' dst offset on_miss
             = Some (Value (of_nat (length src)), c2, src, of_nat (length src), [])"
    using r Pnz unfolding Cache_read_def Let_def c1(4) dst start idx b0 bn
    by (simp add: dst del: upt_Suc)
  show ?thesis using cw cr by blast
qed

theorem read_after_write_witness:
  "cache_wf \<lparr>m_lru = [], m_table = [], m_queue = [], m_orphaned = [],
             m_page_size = 4, m_max_pages = 2\<rparr>
   \<and> buffers_sized \<lparr>m_lru = [], m_table = [], m_queue = [], m_orphaned = [],
             m_page_size = 4, m_max_pages = 2\<rparr>
   \<and> m_queue \<lparr>m_lru = [], m_table = [], m_queue = [], m_orphaned = [],
             m_page_size = 4, m_max_pages = 2\<rparr> = []
   \<and> 0 < m_page_size \<lparr>m_lru = [], m_table = [], m_queue = [], m_orphaned = [],
             m_page_size = 4, m_max_pages = 2\<rparr>
   \<and> unat (m_page_size \<lparr>m_lru = [], m_table = [], m_queue = [], m_orphaned = [],
             m_page_size = 4, m_max_pages = 2\<rparr>) < 2 ^ 28
   \<and> [1, 2, 3, 4, 5, 6 :: byte] \<noteq> []
   \<and> unat (2 :: off_t) + length [1, 2, 3, 4, 5, 6 :: byte] < 2 ^ 64
   \<and> length [0, 0, 0, 0, 0, 0 :: byte] = length [1, 2, 3, 4, 5, 6 :: byte]
   \<and> (\<exists>c1 c2.
         Cache_write \<lparr>m_lru = [], m_table = [], m_queue = [], m_orphaned = [],
             m_page_size = 4, m_max_pages = 2\<rparr> 1 [1, 2, 3, 4, 5, 6] 2
           = Some (Value 6, c1, 6)
       \<and> Cache_read c1 1 [0, 0, 0, 0, 0, 0] 2 (fetch_fail 5)
           = Some (Value 6, c2, [1, 2, 3, 4, 5, 6], 6, []))"
  using read_after_write
    [of "\<lparr>m_lru = [], m_table = [], m_queue = [], m_orphaned = [],
             m_page_size = 4, m_max_pages = 2\<rparr>" "[1, 2, 3, 4, 5, 6]" 2 "[0, 0, 0, 0, 0, 0]"
        1 "fetch_fail 5"]
  by (simp add: cache_wf_def buffers_sized_def)

text \<open>
  C8 as stated fails when the request spans more pages than the cache may hold. With
  pages of 4 bytes and room for one page, 8 bytes are written at offset 0: page 0 is
  evicted when page 1 is written. The read that follows calls \<^verbatim>\<open>on_miss\<close> for both pages,
  each of them overwritten in full by the write, and returns the bytes of the device.
\<close>

theorem read_after_write_evicted:
  "Cache_write
     \<lparr>m_lru = [], m_table = [], m_queue = [], m_orphaned = [],
        m_page_size = 4, m_max_pages = 1\<rparr> 1 [1, 2, 3, 4, 5, 6, 7, 8] 0
     = Some (Value 8,
     \<lparr>m_lru = [(2, \<lparr>m_key = PageKey 1 1, m_data = [5, 6, 7, 8], m_size = 0x10000004\<rparr>)],
        m_table = [(PageKey 1 1, 2)], m_queue = [],
        m_orphaned = [(1, \<lparr>m_key = PageKey 1 0, m_data = [1, 2, 3, 4], m_size = 0x10000004\<rparr>)],
        m_page_size = 4, m_max_pages = 1\<rparr>, 8)
   \<and> Cache_read
     \<lparr>m_lru = [(2, \<lparr>m_key = PageKey 1 1, m_data = [5, 6, 7, 8], m_size = 0x10000004\<rparr>)],
        m_table = [(PageKey 1 1, 2)], m_queue = [],
        m_orphaned = [(1, \<lparr>m_key = PageKey 1 0, m_data = [1, 2, 3, 4], m_size = 0x10000004\<rparr>)],
        m_page_size = 4, m_max_pages = 1\<rparr> 1 [0, 0, 0, 0, 0, 0, 0, 0] 0 (fetch_ok [9, 9, 9, 9])
     = Some (Value 8,
     \<lparr>m_lru = [(4, \<lparr>m_key = PageKey 1 1, m_data = [9, 9, 9, 9], m_size = 4\<rparr>)],
        m_table = [(PageKey 1 1, 4)], m_queue = [],
        m_orphaned = [(1, \<lparr>m_key = PageKey 1 0, m_data = [1, 2, 3, 4], m_size = 0x10000004\<rparr>),
                      (2, \<lparr>m_key = PageKey 1 1, m_data = [5, 6, 7, 8], m_size = 0x10000004\<rparr>)],
        m_page_size = 4, m_max_pages = 1\<rparr>,
     [9, 9, 9, 9, 9, 9, 9, 9], 8, [0, 4])"
  by code_simp

section \<open>Well-formedness is an invariant\<close>

lemma span_store_length: "length (span_store buf bytes) = length buf"
  by (simp add: span_store_def)

lemma copy_n_length:
  assumes "copy_n src from n dst to = Some d"
  shows "length d = length dst"
  using assms by (auto simp add: copy_n_def split: if_splits)

lemma Page_write_fields:
  assumes "Page_write p inp offset = Some (n, p')"
  shows "m_key p' = m_key p" "length (m_data p') = length (m_data p)"
  using assms by (auto simp add: Page_write_def Let_def dest: copy_n_length)

lemma touch_set:
  assumes "distinct (map fst lru)" "touch h lru = Some lru'"
  shows "set lru' = set lru \<and> distinct (map fst lru')"
proof -
  from assms(2) obtain page where pg: "map_of lru h = Some page"
    by (auto simp add: touch_def split: option.splits)
  from touch_eq[OF assms(1) pg] assms(2)
  have eq: "lru' = (h, page) # AList.delete h lru" by simp
  have mem: "(h, page) \<in> set lru" using pg by (simp add: map_of_SomeD)
  have "set lru' = set lru"
    unfolding eq using set_delete_distinct[OF assms(1) mem] mem by auto
  moreover have "distinct (map fst lru')"
    unfolding eq using assms(1) by (simp add: distinct_delete delete_notin_dom)
  ultimately show ?thesis by simp
qed

lemma touch_wf:
  assumes "cache_wf c" "touch h (m_lru c) = Some lru"
  shows "cache_wf (c\<lparr>m_lru := lru\<rparr>)"
  using assms touch_set[of "m_lru c" h lru] by (simp add: cache_wf_def)

lemma touch_buffers:
  assumes "cache_wf c" "buffers_sized c" "touch h (m_lru c) = Some lru"
  shows "buffers_sized (c\<lparr>m_lru := lru\<rparr>)"
  using assms touch_set[of "m_lru c" h lru]
  by (simp add: cache_wf_def buffers_sized_def list_all_iff)

lemma update_same_key_set:
  assumes "distinct (map fst lru)" "map_of lru h = Some page"
  shows "set (AList.update h page' lru) = insert (h, page') (set lru - {(h, page)})"
  using assms
proof (induction lru)
  case Nil
  then show ?case by simp
next
  case (Cons x xs)
  obtain a b where x: "x = (a, b)" by (cases x)
  show ?case
  proof (cases "a = h")
    case True
    then have "b = page" using Cons.prems(2) x by simp
    moreover have "(h, page) \<notin> set xs" using Cons.prems(1) x True by (auto simp add: rev_image_eqI)
    ultimately show ?thesis using x True by auto
  next
    case False
    then have "map_of xs h = Some page" using Cons.prems(2) x by simp
    moreover have "distinct (map fst xs)" using Cons.prems(1) by simp
    ultimately have "set (AList.update h page' xs) = insert (h, page') (set xs - {(h, page)})"
      using Cons.IH by simp
    then show ?thesis using x False by auto
  qed
qed

lemma update_same_key_wf:
  assumes wf: "cache_wf c" and pg: "map_of (m_lru c) h = Some page"
    and key: "m_key page' = m_key page"
  shows "cache_wf (c\<lparr>m_lru := AList.update h page' (m_lru c)\<rparr>)"
proof -
  have dl: "distinct (map fst (m_lru c))" and dt: "distinct (map fst (m_table c))"
    and tab: "set (m_table c) = (\<lambda>(h, page). (m_key page, h)) ` set (m_lru c)"
    using wf by (simp_all add: cache_wf_def)
  have mem: "(h, page) \<in> set (m_lru c)" using pg by (simp add: map_of_SomeD)
  have s: "set (AList.update h page' (m_lru c)) = insert (h, page') (set (m_lru c) - {(h, page)})"
    using update_same_key_set[OF dl pg] .
  have "(\<lambda>(h, page). (m_key page, h)) ` set (AList.update h page' (m_lru c))
          = (\<lambda>(h, page). (m_key page, h)) ` set (m_lru c)"
  proof (intro set_eqI iffI)
    fix e assume "e \<in> (\<lambda>(h, page). (m_key page, h)) ` set (AList.update h page' (m_lru c))"
    then obtain a b where ab: "(a, b) \<in> insert (h, page') (set (m_lru c) - {(h, page)})"
      "e = (m_key b, a)" unfolding s by auto
    show "e \<in> (\<lambda>(h, page). (m_key page, h)) ` set (m_lru c)"
    proof (cases "(a, b) = (h, page')")
      case True
      then have "e = (m_key page, h)" using ab(2) key by simp
      then show ?thesis using mem by force
    next
      case False
      then have "(a, b) \<in> set (m_lru c)" using ab(1) by blast
      then show ?thesis using ab(2) by force
    qed
  next
    fix e assume "e \<in> (\<lambda>(h, page). (m_key page, h)) ` set (m_lru c)"
    then obtain a b where ab: "(a, b) \<in> set (m_lru c)" "e = (m_key b, a)" by auto
    show "e \<in> (\<lambda>(h, page). (m_key page, h)) ` set (AList.update h page' (m_lru c))"
    proof (cases "(a, b) = (h, page)")
      case True
      then have "e = (m_key page', h)" using ab(2) key by simp
      then show ?thesis unfolding s by force
    next
      case False
      then have "(a, b) \<in> insert (h, page') (set (m_lru c) - {(h, page)})" using ab(1) by blast
      then show ?thesis unfolding s using ab(2) by force
    qed
  qed
  then show ?thesis using dl dt tab by (simp add: cache_wf_def distinct_update)
qed

lemma update_same_key_buffers:
  assumes wf: "cache_wf c" and bs: "buffers_sized c" and pg: "map_of (m_lru c) h = Some page"
    and len: "length (m_data page') = length (m_data page)"
  shows "buffers_sized (c\<lparr>m_lru := AList.update h page' (m_lru c)\<rparr>)"
proof -
  have dl: "distinct (map fst (m_lru c))" using wf by (simp add: cache_wf_def)
  have mem: "(h, page) \<in> set (m_lru c)" using pg by (simp add: map_of_SomeD)
  have s: "set (AList.update h page' (m_lru c)) = insert (h, page') (set (m_lru c) - {(h, page)})"
    using update_same_key_set[OF dl pg] .
  have "length (m_data page) = unat (m_page_size c)"
    using bs mem by (auto simp add: buffers_sized_def list_all_iff)
  then show ?thesis using bs len by (auto simp add: buffers_sized_def list_all_iff s)
qed

lemma insert_front_wf:
  assumes wf: "cache_wf c" and miss: "map_of (m_table c) key = None" and k: "m_key page = key"
  shows "cache_wf (c\<lparr>m_lru := (new_node c, page) # m_lru c,
                     m_table := emplace key (new_node c) (m_table c)\<rparr>)"
proof -
  have dl: "distinct (map fst (m_lru c))" and dt: "distinct (map fst (m_table c))"
    and tab: "set (m_table c) = (\<lambda>(h, page). (m_key page, h)) ` set (m_lru c)"
    using wf by (simp_all add: cache_wf_def)
  have fresh: "new_node c \<notin> fst ` set (m_lru c)" by (rule new_node_fresh)
  have nk: "key \<notin> fst ` set (m_table c)" using miss by (simp add: map_of_eq_None_iff)
  show ?thesis using dl dt tab fresh nk k miss by (simp add: cache_wf_def emplace_def)
qed


lemma admit_inv:
  assumes "admit c = Some c'" "cache_wf c" "buffers_sized c"
  shows "cache_wf c' \<and> buffers_sized c'"
proof -
  from admit_effect[OF assms(2)] assms(1)
  have e: "m_lru c' = take (unat (m_max_pages c)) (m_lru c)" "cache_wf c'"
    "m_page_size c' = m_page_size c" by auto
  have "set (m_lru c') \<subseteq> set (m_lru c)" unfolding e(1) by (rule set_take_subset)
  then have "buffers_sized c'"
    using assms(3) e(3) by (auto simp add: buffers_sized_def list_all_iff)
  then show ?thesis using e(2) by simp
qed

lemma install_inv:
  assumes wf: "cache_wf c" and bs: "buffers_sized c"
    and miss: "map_of (m_table c) key = None"
    and len: "length data = unat (m_page_size c)"
  shows "cache_wf (install c key data len) \<and> buffers_sized (install c key data len)"
proof -
  have "cache_wf (install c key data len)"
    using insert_front_wf[OF wf miss, of "\<lparr>m_key = key, m_data = data, m_size = ucast len\<rparr>"]
    by (simp add: install_def Let_def cache_wf_def)
  moreover have "buffers_sized (install c key data len)"
    using bs len by (simp add: install_def Let_def buffers_sized_def)
  ultimately show ?thesis by simp
qed

lemma read_from_page_inv:
  assumes "read_from_page c h lo out tot = Some (c', out', tot1)"
    and "cache_wf c" "buffers_sized c"
  shows "cache_wf c' \<and> buffers_sized c'"
proof -
  from assms(1) obtain lru where t: "touch h (m_lru c) = Some lru" and c': "c' = c\<lparr>m_lru := lru\<rparr>"
    by (auto simp add: read_from_page_def split: option.splits)
  show ?thesis
    unfolding c' using touch_wf[OF assms(2) t] touch_buffers[OF assms(2,3) t] by simp
qed

lemma queue_irrelevant:
  "cache_wf (c\<lparr>m_queue := q\<rparr>) = cache_wf c"
  "buffers_sized (c\<lparr>m_queue := q\<rparr>) = buffers_sized c"
  by (simp_all add: cache_wf_def buffers_sized_def)

lemma read_page_inv:
  assumes step: "read_page on_miss id' offset start index (c, out, tot, misses) = Some (r, (c', rest))"
    and wf: "cache_wf c" and bs: "buffers_sized c"
  shows "cache_wf c' \<and> buffers_sized c'"
proof -
  define key where "key = PageKey id' index"
  have inst: "cache_wf c2 \<and> buffers_sized c2"
    if "map_of (m_table c) key = None"
       "admit (install (c\<lparr>m_queue := q\<rparr>) key
                 (span_store (replicate (unat (m_page_size c)) 0) bytes) len) = Some c2"
    for bytes len c2 q
  proof -
    define c1 where "c1 = c\<lparr>m_queue := q\<rparr>"
    have inv1: "cache_wf c1" "buffers_sized c1"
      using wf bs by (simp_all add: c1_def queue_irrelevant)
    have "map_of (m_table c1) key = None" using that(1) by (simp add: c1_def)
    moreover have "length (span_store (replicate (unat (m_page_size c)) 0) bytes)
                     = unat (m_page_size c1)"
      by (simp add: span_store_length c1_def)
    ultimately have "cache_wf (install c1 key (span_store (replicate (unat (m_page_size c)) 0) bytes) len)
        \<and> buffers_sized (install c1 key (span_store (replicate (unat (m_page_size c)) 0) bytes) len)"
      using install_inv[OF inv1] by simp
    then show ?thesis using admit_inv[OF that(2)[folded c1_def]] by simp
  qed
  have copy: "cache_wf c' \<and> buffers_sized c'"
    if "read_from_page c0 h lo out tot = Some (c', out', tot1)" "cache_wf c0 \<and> buffers_sized c0"
    for c0 h lo out' tot1
    using read_from_page_inv[OF that(1)] that(2) by simp
  show ?thesis
    using step wf bs
    unfolding read_page_def Let_def key_def[symmetric]
    by (auto simp add: queue_irrelevant
        split: result.splits option.splits sum.splits prod.splits)
       (blast dest: inst copy)+
qed


lemma write_into_inv:
  assumes wf: "cache_wf c1" and bs: "buffers_sized c1"
    and pg: "map_of (m_lru c1) h = Some page"
    and wr: "Page_write page sp lo = Some (n, page')"
    and t: "touch h (AList.update h (Page_set_dirty page' True) (m_lru c1)) = Some lru"
    and adm: "admit (c1\<lparr>m_lru := lru\<rparr>) = Some c2"
  shows "cache_wf c2 \<and> buffers_sized c2"
proof -
  define cu where "cu = c1\<lparr>m_lru := AList.update h (Page_set_dirty page' True) (m_lru c1)\<rparr>"
  have k: "m_key (Page_set_dirty page' True) = m_key page"
    and l: "length (m_data (Page_set_dirty page' True)) = length (m_data page)"
    using Page_write_fields[OF wr] by (simp_all add: Page_set_dirty_fields)
  have wfu: "cache_wf cu" unfolding cu_def by (rule update_same_key_wf[OF wf pg k])
  have bsu: "buffers_sized cu" unfolding cu_def by (rule update_same_key_buffers[OF wf bs pg l])
  have tu: "touch h (m_lru cu) = Some lru" using t by (simp add: cu_def)
  have eq: "cu\<lparr>m_lru := lru\<rparr> = c1\<lparr>m_lru := lru\<rparr>" by (simp add: cu_def)
  have "cache_wf (c1\<lparr>m_lru := lru\<rparr>)" "buffers_sized (c1\<lparr>m_lru := lru\<rparr>)"
    using touch_wf[OF wfu tu] touch_buffers[OF wfu bsu tu] unfolding eq by simp_all
  then show ?thesis using admit_inv[OF adm] by simp
qed

lemma write_page_cases:
  assumes step: "write_page id' inp offset start index (c, tot) = Some (r, (c', tot1))"
  obtains (stop) "c' = c"
  | (go) c1 h page spn lo n page' lru where
      "c1 = c \<or> map_of (m_table c) (PageKey id' index) = None
         \<and> c1 = c\<lparr>m_lru := (new_node c, \<lparr>m_key = PageKey id' index,
                     m_data = replicate (unat (m_page_size c)) 0, m_size = 0\<rparr>) # m_lru c,
                   m_table := emplace (PageKey id' index) (new_node c) (m_table c)\<rparr>"
      "map_of (m_lru c1) h = Some page" "Page_write page spn lo = Some (n, page')"
      "touch h (AList.update h (Page_set_dirty page' True) (m_lru c1)) = Some lru"
      "admit (c1\<lparr>m_lru := lru\<rparr>) = Some c'"
      "map_of (m_table c1) (PageKey id' index) = Some h"
proof -
  define key where "key = PageKey id' index"
  define fresh where "fresh = c\<lparr>m_lru := (new_node c, \<lparr>m_key = key,
        m_data = replicate (unat (m_page_size c)) 0, m_size = 0\<rparr>) # m_lru c,
      m_table := emplace key (new_node c) (m_table c)\<rparr>"
  define lo where "lo = (if index = start then offset mod m_page_size c else 0)"
  define wlen where "wlen = min (m_page_size c - lo) (of_nat (length inp) - tot)"
  define spn where "spn = take (unat wlen) (drop (unat tot) inp)"
  define body where "body = (\<lambda>c1 h.
      if length spn \<noteq> unat wlen then None
      else case map_of (m_lru c1) h of
             None \<Rightarrow> None
           | Some page \<Rightarrow>
               (case Page_write page spn lo of
                  None \<Rightarrow> None
                | Some (_, page') \<Rightarrow>
                    (case touch h (AList.update h (Page_set_dirty page' True) (m_lru c1)) of
                       None \<Rightarrow> None
                     | Some lru \<Rightarrow>
                         map_option (\<lambda>c2. (Value () :: unit result, c2, tot + wlen))
                           (admit (c1\<lparr>m_lru := lru\<rparr>)))))"
  have body_cases: "\<exists>page n page' lru.
      map_of (m_lru c1) h = Some page \<and> Page_write page spn lo = Some (n, page')
      \<and> touch h (AList.update h (Page_set_dirty page' True) (m_lru c1)) = Some lru
      \<and> admit (c1\<lparr>m_lru := lru\<rparr>) = Some c'"
    if "body c1 h = Some (r, c', tot1)" for c1 h
    using that unfolding body_def by (auto split: if_splits option.splits prod.splits)
  show ?thesis
  proof (cases "queued c key")
    case (Failure err)
    then have "c' = c" using step by (simp add: write_page_def Let_def key_def)
    then show ?thesis by (rule stop)
  next
    case (Suspended k)
    then have "c' = c" using step by (simp add: write_page_def Let_def key_def)
    then show ?thesis by (rule stop)
  next
    case (Value u)
    show ?thesis
    proof (cases "map_of (m_table c) key")
      case None
      have "write_page id' inp offset start index (c, tot) = body fresh (new_node c)"
        using None Value
        unfolding write_page_def body_def fresh_def lo_def wlen_def spn_def key_def Let_def
        by (simp only: prod.case result.case option.case)
      then have "body fresh (new_node c) = Some (r, c', tot1)" using step by simp
      from body_cases[OF this] obtain page n page' lru where
        b: "map_of (m_lru fresh) (new_node c) = Some page" "Page_write page spn lo = Some (n, page')"
        "touch (new_node c) (AList.update (new_node c) (Page_set_dirty page' True) (m_lru fresh))
           = Some lru"
        "admit (fresh\<lparr>m_lru := lru\<rparr>) = Some c'"
        by blast
      have "map_of (m_table fresh) key = Some (new_node c)"
        using None by (simp add: fresh_def emplace_def)
      then show ?thesis
        using None by (intro go[OF _ b]) (simp_all add: fresh_def key_def)
    next
      case (Some h)
      have "write_page id' inp offset start index (c, tot) = body c h"
        using Some Value
        unfolding write_page_def body_def lo_def wlen_def spn_def key_def Let_def
        by (simp only: prod.case result.case option.case)
      then have "body c h = Some (r, c', tot1)" using step by simp
      from body_cases[OF this] obtain page n page' lru where
        b: "map_of (m_lru c) h = Some page" "Page_write page spn lo = Some (n, page')"
        "touch h (AList.update h (Page_set_dirty page' True) (m_lru c)) = Some lru"
        "admit (c\<lparr>m_lru := lru\<rparr>) = Some c'"
        by blast
      show ?thesis using Some by (intro go[OF _ b]) (simp_all add: key_def)
    qed
  qed
qed

lemma write_page_inv:
  assumes step: "write_page id' inp offset start index (c, tot) = Some (r, (c', tot1))"
    and wf: "cache_wf c" and bs: "buffers_sized c"
  shows "cache_wf c' \<and> buffers_sized c'"
  using step
proof (cases rule: write_page_cases)
  case stop
  then show ?thesis using wf bs by simp
next
  case (go c1 h page spn lo n page' lru)
  have "cache_wf c1 \<and> buffers_sized c1"
  proof (cases "c1 = c")
    case True
    then show ?thesis using wf bs by simp
  next
    case False
    then have miss: "map_of (m_table c) (PageKey id' index) = None"
      and c1: "c1 = c\<lparr>m_lru := (new_node c, \<lparr>m_key = PageKey id' index,
                     m_data = replicate (unat (m_page_size c)) 0, m_size = 0\<rparr>) # m_lru c,
                   m_table := emplace (PageKey id' index) (new_node c) (m_table c)\<rparr>"
      using go(1) by simp_all
    have "cache_wf c1"
      unfolding c1 by (rule insert_front_wf[OF wf miss]) simp
    moreover have "buffers_sized c1"
      using bs by (simp add: c1 buffers_sized_def)
    ultimately show ?thesis by simp
  qed
  then show ?thesis using write_into_inv[OF _ _ go(2,3,4,5)] by simp
qed

lemma flush_page_inv:
  assumes step: "flush_page on_flush id' index (c, fl) = Some (r, (c', fl'))"
    and wf: "cache_wf c" and bs: "buffers_sized c"
  shows "cache_wf c' \<and> buffers_sized c'"
proof -
  have upd: "cache_wf (c\<lparr>m_lru := AList.update h (Page_set_dirty page False) (m_lru c)\<rparr>)
        \<and> buffers_sized (c\<lparr>m_lru := AList.update h (Page_set_dirty page False) (m_lru c)\<rparr>)"
    if "map_of (m_lru c) h = Some page" for h page
    using update_same_key_wf[OF wf that, of "Page_set_dirty page False"]
      update_same_key_buffers[OF wf bs that, of "Page_set_dirty page False"]
    by (simp add: Page_set_dirty_fields)
  show ?thesis
    using step wf bs upd
    unfolding flush_page_def Let_def
    by (auto split: result.splits option.splits prod.splits if_splits sum.splits)
qed


lemma read_loop_preserves:
  assumes inv: "\<And>index c out tot misses r c' rest.
      read_page on_miss id' offset start index (c, out, tot, misses) = Some (r, (c', rest))
        \<Longrightarrow> I c \<Longrightarrow> I c'"
    and "read_loop on_miss id' offset start indices (c, out, tot, misses) = Some (r, (c', rest))"
    and "I c"
  shows "I c'"
  using assms(2,3)
proof (induction indices arbitrary: c out tot misses)
  case Nil
  then show ?case by simp
next
  case (Cons index indices)
  from Cons.prems(1) obtain r1 c1 out1 tot1 misses1 where
    step: "read_page on_miss id' offset start index (c, out, tot, misses)
             = Some (r1, (c1, out1, tot1, misses1))"
    by (auto split: option.splits)
  have i1: "I c1" using inv[OF step Cons.prems(2)] .
  show ?case
  proof (cases r1)
    case (Value u)
    then have "read_loop on_miss id' offset start indices (c1, out1, tot1, misses1)
                 = Some (r, (c', rest))"
      using Cons.prems(1) step by simp
    from Cons.IH[OF this i1] show ?thesis .
  next
    case (Failure err)
    then show ?thesis using Cons.prems(1) step i1 by auto
  next
    case (Suspended k)
    then show ?thesis using Cons.prems(1) step i1 by auto
  qed
qed

lemma write_loop_preserves:
  assumes inv: "\<And>index c tot r c' tot1.
      write_page id' inp offset start index (c, tot) = Some (r, (c', tot1)) \<Longrightarrow> I c \<Longrightarrow> I c'"
    and "write_loop id' inp offset start indices (c, tot) = Some (r, (c', tot1))"
    and "I c"
  shows "I c'"
  using assms(2,3)
proof (induction indices arbitrary: c tot)
  case Nil
  then show ?case by simp
next
  case (Cons index indices)
  from Cons.prems(1) obtain r1 c1 tot2 where
    step: "write_page id' inp offset start index (c, tot) = Some (r1, (c1, tot2))"
    by (auto split: option.splits)
  have i1: "I c1" using inv[OF step Cons.prems(2)] .
  show ?case
  proof (cases r1)
    case (Value u)
    then have "write_loop id' inp offset start indices (c1, tot2) = Some (r, (c', tot1))"
      using Cons.prems(1) step by simp
    from Cons.IH[OF this i1] show ?thesis .
  next
    case (Failure err)
    then show ?thesis using Cons.prems(1) step i1 by auto
  next
    case (Suspended k)
    then show ?thesis using Cons.prems(1) step i1 by auto
  qed
qed

lemma flush_loop_preserves:
  assumes inv: "\<And>index c fl r c' fl'.
      flush_page on_flush id' index (c, fl) = Some (r, (c', fl')) \<Longrightarrow> I c \<Longrightarrow> I c'"
    and "flush_loop on_flush id' indices (c, fl) = Some (r, (c', fl'))"
    and "I c"
  shows "I c'"
  using assms(2,3)
proof (induction indices arbitrary: c fl)
  case Nil
  then show ?case by simp
next
  case (Cons index indices)
  from Cons.prems(1) obtain r1 c1 fl1 where
    step: "flush_page on_flush id' index (c, fl) = Some (r1, (c1, fl1))"
    by (auto split: option.splits)
  have i1: "I c1" using inv[OF step Cons.prems(2)] .
  show ?case
  proof (cases r1)
    case (Value u)
    then have "flush_loop on_flush id' indices (c1, fl1) = Some (r, (c', fl'))"
      using Cons.prems(1) step by simp
    from Cons.IH[OF this i1] show ?thesis .
  next
    case (Failure err)
    then show ?thesis using Cons.prems(1) step i1 by auto
  next
    case (Suspended k)
    then show ?thesis using Cons.prems(1) step i1 by auto
  qed
qed

lemma evict_queue:
  assumes "evict n c = Some c'"
  shows "m_queue c' = m_queue c"
  using assms
proof (induction n arbitrary: c)
  case 0
  then show ?case by simp
next
  case (Suc n)
  obtain h page where lst: "last (m_lru c) = (h, page)" by (cases "last (m_lru c)")
  from Suc.prems obtain c2 where "evict n c2 = Some c'" "m_queue c2 = m_queue c"
    using lst by (auto simp add: Let_def split: if_splits)
  then show ?case using Suc.IH by simp
qed

lemma admit_queue:
  assumes "admit c = Some c'"
  shows "m_queue c' = m_queue c"
  using assms evict_queue by (auto simp add: admit_def split: if_splits)

lemma read_from_page_queue:
  assumes "read_from_page c h lo out tot = Some (c', out', tot1)"
  shows "m_queue c' = m_queue c"
  using assms by (auto simp add: read_from_page_def split: option.splits)

lemma read_page_queue:
  assumes "read_page on_miss id' offset start index (c, out, tot, misses) = Some (r, (c', rest))"
    and "m_queue c = []"
  shows "m_queue c' = []"
proof -
  have inst: "m_queue c2 = []"
    if "admit (install (c\<lparr>m_queue := [(key, Unresolved)]\<rparr>) key data len) = Some c2"
    for key data len c2
    using admit_queue[OF that] by (simp add: install_def Let_def)
  have copy: "m_queue c' = []"
    if "read_from_page c0 h lo out tot = Some (c', out', tot1)" "m_queue c0 = []"
    for c0 h lo out' tot1
    using read_from_page_queue[OF that(1)] that(2) by simp
  show ?thesis
    using assms
    unfolding read_page_def Let_def
    by (auto simp add: emplace_def
        split: result.splits option.splits sum.splits prod.splits)
       (metis inst copy)+
qed


lemma write_page_queue:
  assumes "write_page id' inp offset start index (c, tot) = Some (r, (c', tot1))"
  shows "m_queue c' = m_queue c"
  using assms
proof (cases rule: write_page_cases)
  case stop
  then show ?thesis by simp
next
  case (go c1 h page spn lo n page' lru)
  have "m_queue c1 = m_queue c" using go(1) by auto
  then show ?thesis using admit_queue[OF go(5)] by simp
qed

lemma flush_page_queue:
  assumes "flush_page on_flush id' index (c, fl) = Some (r, (c', fl'))"
  shows "m_queue c' = m_queue c"
  using assms by (cases rule: flush_page_cases) auto

text \<open>
  A new cache is well-formed, has buffers of the page size and nothing in flight, and
  every operation that returns keeps it so: the states that the theorems above assume
  include every state that a task running alone reaches from a new cache.
\<close>

lemma Cache_new_wf:
  assumes "Cache_new page_size max_pages = Some c"
  shows "cache_wf c \<and> buffers_sized c \<and> m_queue c = []"
  using assms by (auto simp add: Cache_new_def cache_wf_def buffers_sized_def)

lemma run_keeps_wf:
  assumes "cache_wf c \<and> buffers_sized c \<and> m_queue c = []" and "run operation c = Some c'"
  shows "cache_wf c' \<and> buffers_sized c' \<and> m_queue c' = []"
proof (cases operation)
  case (Read id' out offset on_miss)
  then obtain r rest where "Cache_read c id' out offset on_miss = Some (r, (c', rest))"
    using assms(2) by auto
  then obtain start indices where lp:
    "read_loop on_miss id' offset start indices (c, out, 0, []) = Some (r, (c', rest))"
    by (auto simp add: Cache_read_def Let_def split: if_splits)
  have "cache_wf c2 \<and> buffers_sized c2 \<and> m_queue c2 = []"
    if "read_page on_miss id' offset start index (c1, out1, tot1, misses1) = Some (r1, (c2, rest1))"
      "cache_wf c1 \<and> buffers_sized c1 \<and> m_queue c1 = []"
    for index c1 out1 tot1 misses1 r1 c2 rest1
    using read_page_inv[OF that(1)] read_page_queue[OF that(1)] that(2) by simp
  note st = this
  show ?thesis
    by (rule read_loop_preserves[where I = "\<lambda>c. cache_wf c \<and> buffers_sized c \<and> m_queue c = []",
          OF st lp assms(1)])
next
  case (Write id' inp offset)
  then obtain r tot where "Cache_write c id' inp offset = Some (r, (c', tot))"
    using assms(2) by auto
  then obtain start indices where lp:
    "write_loop id' inp offset start indices (c, 0) = Some (r, (c', tot))"
    by (auto simp add: Cache_write_def Let_def split: if_splits)
  have "cache_wf c2 \<and> buffers_sized c2 \<and> m_queue c2 = []"
    if "write_page id' inp offset start index (c1, tot1) = Some (r1, (c2, tot2))"
      "cache_wf c1 \<and> buffers_sized c1 \<and> m_queue c1 = []"
    for index c1 tot1 r1 c2 tot2
    using write_page_inv[OF that(1)] write_page_queue[OF that(1)] that(2) by simp
  note st = this
  show ?thesis
    by (rule write_loop_preserves[where I = "\<lambda>c. cache_wf c \<and> buffers_sized c \<and> m_queue c = []",
          OF st lp assms(1)])
next
  case (Flush id' sz on_flush)
  then obtain r fl where "Cache_flush c id' sz on_flush = Some (r, (c', fl))"
    using assms(2) by auto
  then obtain indices where lp:
    "flush_loop on_flush id' indices (c, []) = Some (r, (c', fl))"
    by (auto simp add: Cache_flush_def Let_def split: if_splits)
  have "cache_wf c2 \<and> buffers_sized c2 \<and> m_queue c2 = []"
    if "flush_page on_flush id' index (c1, fl1) = Some (r1, (c2, fl2))"
      "cache_wf c1 \<and> buffers_sized c1 \<and> m_queue c1 = []"
    for index c1 fl1 r1 c2 fl2
    using flush_page_inv[OF that(1)] flush_page_queue[OF that(1)] that(2) by simp
  note st = this
  show ?thesis
    by (rule flush_loop_preserves[where I = "\<lambda>c. cache_wf c \<and> buffers_sized c \<and> m_queue c = []",
          OF st lp assms(1)])
next
  case GetOrphanPages
  then show ?thesis
    using assms by (auto simp add: Cache_get_orphan_pages_def cache_wf_def buffers_sized_def)
next
  case Invalidate
  then show ?thesis
    using assms by (auto simp add: Cache_invalidate_def cache_wf_def buffers_sized_def)
next
  case (SetPageSize new_page_size)
  then show ?thesis
    using assms by (auto simp add: Cache_set_page_size_def cache_wf_def buffers_sized_def)
next
  case (SetMaxPages new_max_pages)
  then show ?thesis
    using assms by (auto simp add: Cache_set_max_pages_def cache_wf_def buffers_sized_def)
qed

section \<open>What a flush does, page by page\<close>

lemma wf_table_inj:
  assumes wf: "cache_wf c"
    and "map_of (m_table c) k1 = Some h" "map_of (m_table c) k2 = Some h"
  shows "k1 = k2"
proof -
  have tab: "set (m_table c) = (\<lambda>(h, page). (m_key page, h)) ` set (m_lru c)"
    and dl: "distinct (map fst (m_lru c))"
    using wf by (simp_all add: cache_wf_def)
  have "(k1, h) \<in> set (m_table c)" using assms(2) by (simp add: map_of_SomeD)
  then obtain p1 where p1: "(h, p1) \<in> set (m_lru c)" "m_key p1 = k1"
    unfolding tab by auto
  have "(k2, h) \<in> set (m_table c)" using assms(3) by (simp add: map_of_SomeD)
  then obtain p2 where p2: "(h, p2) \<in> set (m_lru c)" "m_key p2 = k2"
    unfolding tab by auto
  have "p1 = p2" using p1(1) p2(1) eq_key_imp_eq_value[OF dl] by blast
  then show ?thesis using p1(2) p2(2) by simp
qed

lemma flush_read:
  fixes P :: usize
  assumes len: "length (m_data page) = unat P" and P: "P \<noteq> 0"
  shows "\<exists>n data. Page_read page (replicate (unat P) 0) 0 = Some (n, data)
           \<and> take (unat n) data = take (unat (Page_size page)) (m_data page)"
proof -
  define sz where "sz = min (Page_size page) P"
  have szP: "unat sz \<le> unat P" by (simp add: sz_def unat_min_word)
  have tk: "take (unat sz) (m_data page) = take (unat (Page_size page)) (m_data page)"
    using len by (simp add: sz_def unat_min_word min_def)
      (simp add: word_le_nat_alt)
  have rd: "Page_read page (replicate (unat P) 0) 0
      = map_option (\<lambda>out'. (sz, out')) (copy_n (m_data page) 0 (unat sz) (replicate (unat P) 0) 0)"
    by (simp add: Page_read_def Let_def sz_def Page_size_def)
  show ?thesis
  proof (cases "unat sz = 0")
    case True
    then have "Page_read page (replicate (unat P) 0) 0 = Some (sz, replicate (unat P) 0)"
      using rd by (simp add: copy_n_def)
    moreover have "take (unat sz) (replicate (unat P) (0 :: byte))
        = take (unat (Page_size page)) (m_data page)"
      using True tk by simp
    ultimately show ?thesis by blast
  next
    case False
    define A where "A = take (unat sz) (m_data page)"
    have lA: "length A = unat sz" using szP len by (simp add: A_def)
    have "Page_read page (replicate (unat P) 0) 0
        = Some (sz, A @ drop (unat sz) (replicate (unat P) 0))"
      using False rd szP len by (simp add: copy_n_def A_def)
    moreover have "take (unat sz) (A @ drop (unat sz) (replicate (unat P) (0 :: byte))) = A"
      using lA by simp
    ultimately show ?thesis using tk unfolding A_def by metis
  qed
qed

lemma flush_page_skip:
  assumes q: "m_queue c = []" and np: "\<not> flush_pending c id' index" and wf: "cache_wf c"
  shows "flush_page on_flush id' index (c, fl) = Some (Value (), c, fl)"
proof (cases "map_of (m_table c) (PageKey id' index)")
  case None
  then show ?thesis using q by (simp add: flush_page_def queued_def)
next
  case (Some h)
  then have "(PageKey id' index, h) \<in> set (m_table c)" by (simp add: map_of_SomeD)
  then obtain page where pg: "(h, page) \<in> set (m_lru c)"
    using wf unfolding cache_wf_def by auto
  then have m: "map_of (m_lru c) h = Some page" using wf by (simp add: cache_wf_def)
  then have "\<not> Page_is_dirty page" using np Some by (simp add: flush_pending_def resident_def)
  then show ?thesis using q Some m by (simp add: flush_page_def queued_def)
qed

lemma flush_page_push:
  assumes wf: "cache_wf c" and bs: "buffers_sized c" and q: "m_queue c = []"
    and P: "m_page_size c \<noteq> 0" and p: "flush_pending c id' index"
  shows "\<exists>c1. flush_page on_flush id' index (c, fl)
             = Some (case answer on_flush (flush_call c id' index) of
                       Inl err \<Rightarrow> Failure err | Inr n \<Rightarrow> Value (),
                     c1, fl @ [flush_call c id' index])
         \<and> cache_wf c1 \<and> buffers_sized c1 \<and> m_queue c1 = []
         \<and> m_page_size c1 = m_page_size c
         \<and> (\<forall>key. resident c1 key = cleaned {PageKey id' index} c key)"
proof -
  define key where "key = PageKey id' index"
  from p obtain h page where h: "map_of (m_table c) key = Some h"
    and m: "map_of (m_lru c) h = Some page" and d: "Page_is_dirty page"
    by (auto simp add: flush_pending_def resident_def key_def split: option.splits)
  have res: "resident c key = Some page" using h m by (simp add: resident_def)
  have "(h, page) \<in> set (m_lru c)" using m by (simp add: map_of_SomeD)
  then have len: "length (m_data page) = unat (m_page_size c)" using bs by (rule buffers_sizedD[rotated])
  from flush_read[OF len P] obtain n data where
    rd: "Page_read page (replicate (unat (m_page_size c)) 0) 0 = Some (n, data)"
    and tk: "take (unat n) data = take (unat (Page_size page)) (m_data page)" by blast
  define c1 where "c1 = c\<lparr>m_lru := AList.update h (Page_set_dirty page False) (m_lru c)\<rparr>"
  have call: "flush_call c id' index = (key, take (unat n) data, index * m_page_size c)"
    using res tk by (simp add: flush_call_def key_def)
  have step: "flush_page on_flush id' index (c, fl)
             = Some (case answer on_flush (flush_call c id' index) of
                       Inl err \<Rightarrow> Failure err | Inr n \<Rightarrow> Value (),
                     c1, fl @ [flush_call c id' index])"
  proof -
    have qv: "queued c (PageKey id' index) = Value ()" using q by (simp add: queued_def)
    show ?thesis
      unfolding flush_page_def Let_def call answer_def c1_def
      using qv h[unfolded key_def] m d rd
      by (cases "on_flush (take (unat n) data) (index * m_page_size c)")
        (simp_all only: prod.case result.case option.case if_True sum.case key_def)
  qed
  have wf1: "cache_wf c1" unfolding c1_def
    by (rule update_same_key_wf[OF wf m]) (simp add: Page_set_dirty_fields)
  have bs1: "buffers_sized c1" unfolding c1_def
    by (rule update_same_key_buffers[OF wf bs m]) (simp add: Page_set_dirty_fields)
  have r1: "resident c1 k = cleaned {key} c k" for k
  proof (cases "map_of (m_table c) k")
    case None
    then have "k \<noteq> key" using h by auto
    then show ?thesis using None by (simp add: c1_def resident_update cleaned_def) (simp add: resident_def)
  next
    case (Some h')
    show ?thesis
    proof (cases "k = key")
      case True
      then show ?thesis using h res by (simp add: c1_def resident_update cleaned_def)
    next
      case False
      then have "h' \<noteq> h" using wf_table_inj[OF wf Some] h by blast
      then show ?thesis using Some False
        by (simp add: c1_def resident_update cleaned_def) (simp add: resident_def)
    qed
  qed
  show ?thesis
    using step wf1 bs1 r1 q by (intro exI[of _ c1]) (simp add: c1_def key_def)
qed


lemma cleaned_step:
  assumes r1: "\<forall>key. resident c1 key = cleaned {k} c key"
    and r2: "\<forall>key. resident c' key = cleaned K c1 key"
    and nk: "k \<notin> K"
  shows "resident c' key = cleaned (insert k K) c key"
  using r1 r2 nk by (auto simp add: cleaned_def)

lemma flush_loop_spec:
  fixes c0 :: Cache and id' :: Id and on_flush :: OnFlush
  defines "ok \<equiv> \<lambda>i. \<not> fails on_flush (flush_call c0 id' i)"
  assumes "distinct idxs"
  shows "cache_wf c \<Longrightarrow> buffers_sized c \<Longrightarrow> m_queue c = [] \<Longrightarrow> m_page_size c \<noteq> 0
     \<Longrightarrow> m_page_size c = m_page_size c0
     \<Longrightarrow> \<forall>j \<in> set idxs. resident c (PageKey id' j) = resident c0 (PageKey id' j)
     \<Longrightarrow> \<exists>c'. flush_loop on_flush id' idxs (c, fl)
            = Some (case dropWhile ok (filter (flush_pending c0 id') idxs) of
                      [] \<Rightarrow> Value ()
                    | i # rest \<Rightarrow> (case answer on_flush (flush_call c0 id' i) of
                                   Inl err \<Rightarrow> Failure err | Inr n \<Rightarrow> Value ()),
                    c',
                    fl @ map (flush_call c0 id')
                           (takeWhile ok (filter (flush_pending c0 id') idxs)
                            @ take 1 (dropWhile ok (filter (flush_pending c0 id') idxs))))
          \<and> (\<forall>key. resident c' key
                = cleaned (PageKey id' ` set
                           (takeWhile ok (filter (flush_pending c0 id') idxs)
                            @ take 1 (dropWhile ok (filter (flush_pending c0 id') idxs)))) c key)"
  using assms(2)
proof (induction idxs arbitrary: c fl)
  case Nil
  then show ?case by (simp add: cleaned_def)
next
  case (Cons i rest)
  have pend: "flush_pending c id' i = flush_pending c0 id' i"
    using Cons.prems(6) by (simp add: flush_pending_def)
  have call: "flush_call c id' i = flush_call c0 id' i"
    using Cons.prems(5,6) by (simp add: flush_call_def)
  have dis: "distinct rest" "i \<notin> set rest" using Cons.prems(7) by simp_all
  define D where "D = filter (flush_pending c0 id') rest"
  have Dsub: "set D \<subseteq> set rest" by (auto simp add: D_def)
  show ?case
  proof (cases "flush_pending c0 id' i")
    case False
    have "flush_page on_flush id' i (c, fl) = Some (Value (), c, fl)"
      using flush_page_skip[OF Cons.prems(3) _ Cons.prems(1)] False pend by simp
    then have "flush_loop on_flush id' (i # rest) (c, fl) = flush_loop on_flush id' rest (c, fl)"
      by simp
    moreover have "\<forall>j \<in> set rest. resident c (PageKey id' j) = resident c0 (PageKey id' j)"
      using Cons.prems(6) by simp
    ultimately show ?thesis
      using Cons.IH[OF Cons.prems(1,2,3,4,5) _ dis(1), of fl] False by simp
  next
    case True
    then have p: "flush_pending c id' i" using pend by simp
    from flush_page_push[OF Cons.prems(1,2,3,4) p, of on_flush fl] obtain c1 where
      step: "flush_page on_flush id' i (c, fl)
             = Some (case answer on_flush (flush_call c0 id' i) of
                       Inl err \<Rightarrow> Failure err | Inr n \<Rightarrow> Value (),
                     c1, fl @ [flush_call c0 id' i])"
      and c1: "cache_wf c1" "buffers_sized c1" "m_queue c1 = []" "m_page_size c1 = m_page_size c"
      and r1: "\<forall>key. resident c1 key = cleaned {PageKey id' i} c key"
      unfolding call by blast
    show ?thesis
    proof (cases "answer on_flush (flush_call c0 id' i)")
      case (Inl err)
      then have nok: "\<not> ok i" by (simp add: ok_def fails_def)
      have "flush_loop on_flush id' (i # rest) (c, fl)
              = Some (Failure err, c1, fl @ [flush_call c0 id' i])"
        using step Inl by simp
      then show ?thesis
        using True nok Inl r1 by (intro exI[of _ c1]) simp
    next
      case (Inr n)
      then have ok: "ok i" by (simp add: ok_def fails_def)
      have lp: "flush_loop on_flush id' (i # rest) (c, fl)
              = flush_loop on_flush id' rest (c1, fl @ [flush_call c0 id' i])"
        using step Inr by simp
      have ag: "\<forall>j \<in> set rest. resident c1 (PageKey id' j) = resident c0 (PageKey id' j)"
      proof
        fix j assume j: "j \<in> set rest"
        then have "PageKey id' j \<noteq> PageKey id' i" using dis(2) by auto
        then have "resident c1 (PageKey id' j) = resident c (PageKey id' j)"
          using r1 by (simp add: cleaned_def)
        then show "resident c1 (PageKey id' j) = resident c0 (PageKey id' j)"
          using Cons.prems(6) j by simp
      qed
      have ps: "m_page_size c1 \<noteq> 0" "m_page_size c1 = m_page_size c0"
        using c1(4) Cons.prems(4,5) by simp_all
      define V where "V = takeWhile ok D @ take 1 (dropWhile ok D)"
      from Cons.IH[OF c1(1,2,3) ps ag dis(1), of "fl @ [flush_call c0 id' i]",
          folded D_def, folded V_def]
      obtain c' where
        rest: "flush_loop on_flush id' rest (c1, fl @ [flush_call c0 id' i])
            = Some (case dropWhile ok D of
                      [] \<Rightarrow> Value ()
                    | i # rest \<Rightarrow> (case answer on_flush (flush_call c0 id' i) of
                                   Inl err \<Rightarrow> Failure err | Inr n \<Rightarrow> Value ()),
                    c', (fl @ [flush_call c0 id' i]) @ map (flush_call c0 id') V)"
        and r2: "\<forall>key. resident c' key = cleaned (PageKey id' ` set V) c1 key"
        by blast
      have "set V \<subseteq> set rest"
        using Dsub set_takeWhileD[of _ ok D] set_dropWhileD[of _ ok D] in_set_takeD[of _ 1 "dropWhile ok D"]
        by (auto simp add: V_def)
      then have nk: "PageKey id' i \<notin> PageKey id' ` set V" using dis(2) by auto
      have r: "\<forall>key. resident c' key = cleaned (insert (PageKey id' i) (PageKey id' ` set V)) c key"
        using cleaned_step[OF r1 r2 nk] by simp
      have f: "filter (flush_pending c0 id') (i # rest) = i # D" using True by (simp add: D_def)
      show ?thesis
        unfolding f lp
        using rest r ok by (intro exI[of _ c']) (simp add: V_def)
    qed
  qed
qed


lemma distinct_iota: "distinct (iota 0 n)"
proof -
  have "inj_on (of_nat :: nat \<Rightarrow> usize) {0..<unat n}"
  proof (rule inj_onI)
    fix a b assume a: "a \<in> {0..<unat n}" and b: "b \<in> {0..<unat n}"
      and eq: "(of_nat a :: usize) = of_nat b"
    have n: "unat n < 2 ^ 64" using unsigned_less[of n, where 'a = nat] by simp
    have "a < unat n" "b < unat n" using a b by simp_all
    then have "a < 2 ^ 64" "b < 2 ^ 64" using n by linarith+
    then have "unat (of_nat a :: usize) = a" "unat (of_nat b :: usize) = b"
      by (simp_all add: unat_of_nat)
    then show "a = b" using eq by metis
  qed
  then show ?thesis by (simp add: iota_def distinct_map)
qed

lemma cleaned_not_pending:
  assumes "\<forall>key. resident c' key = cleaned K c key" "PageKey id' i \<in> K"
  shows "\<not> flush_pending c' id' i"
  using assms clean_after_set_dirty_False
  by (auto simp add: flush_pending_def cleaned_def split: option.splits)

lemma uncleaned_pending:
  assumes "\<forall>key. resident c' key = cleaned K c key" "PageKey id' i \<notin> K"
  shows "flush_pending c' id' i = flush_pending c id' i"
  using assms by (simp add: flush_pending_def cleaned_def)

text \<open>
  C1 (as amended). In a well-formed cache with nothing in flight, \<^verbatim>\<open>flush(id, size, on_flush)\<close>
  goes through the resident dirty pages of the file below \<open>size\<close> in index order; for each
  it clears the dirty flag and then calls \<^verbatim>\<open>on_flush\<close> with the bytes of the page up to its
  length and the offset of the page. When every call succeeds, the flush succeeds, has
  called \<^verbatim>\<open>on_flush\<close> once for each of these pages, and all of them are clean. When a call
  fails, the flush returns that error at once: the page whose call failed is clean like
  the pages before it, the dirty pages after it are not visited and stay dirty, and no
  other page has changed.
\<close>

theorem flush_clears_dirty_before_on_flush:
  assumes wf: "cache_wf c" and bs: "buffers_sized c" and q: "m_queue c = []"
    and P: "m_page_size c \<noteq> 0"
  shows "((\<forall>i \<in> set (flush_pages c id' sz). \<not> fails on_flush (flush_call c id' i)) \<longrightarrow>
            (\<exists>c'. Cache_flush c id' sz on_flush
                    = Some (Value (), c', map (flush_call c id') (flush_pages c id' sz))
                 \<and> (\<forall>key. resident c' key
                       = cleaned (PageKey id' ` set (flush_pages c id' sz)) c key)
                 \<and> (\<forall>i \<in> set (flush_pages c id' sz). \<not> flush_pending c' id' i)))
       \<and> (\<forall>before i after err.
            flush_pages c id' sz = before @ i # after
            \<and> (\<forall>j \<in> set before. \<not> fails on_flush (flush_call c id' j))
            \<and> answer on_flush (flush_call c id' i) = Inl err \<longrightarrow>
            (\<exists>c'. Cache_flush c id' sz on_flush
                    = Some (Failure err, c', map (flush_call c id') (before @ [i]))
                 \<and> (\<forall>key. resident c' key = cleaned (PageKey id' ` set (before @ [i])) c key)
                 \<and> \<not> flush_pending c' id' i
                 \<and> (\<forall>j \<in> set before. \<not> flush_pending c' id' j)
                 \<and> (\<forall>j \<in> set after. flush_pending c' id' j)))"
proof -
  define idxs where
    "idxs = iota 0 (sz div m_page_size c + (if sz mod m_page_size c \<noteq> 0 then 1 else 0))"
  define ok where "ok = (\<lambda>i. \<not> fails on_flush (flush_call c id' i))"
  define D where "D = flush_pages c id' sz"
  have D: "D = filter (flush_pending c id') idxs" by (simp add: D_def flush_pages_def idxs_def)
  have run: "Cache_flush c id' sz on_flush = flush_loop on_flush id' idxs (c, [])"
    using P by (simp add: Cache_flush_def Let_def idxs_def)
  have dD: "distinct D" unfolding D idxs_def using distinct_iota by simp
  from flush_loop_spec[OF _ wf bs q P, of idxs c id' on_flush "[]", folded ok_def D]
  obtain c' where
    lp: "flush_loop on_flush id' idxs (c, [])
            = Some (case dropWhile ok D of
                      [] \<Rightarrow> Value ()
                    | i # rest \<Rightarrow> (case answer on_flush (flush_call c id' i) of
                                   Inl err \<Rightarrow> Failure err | Inr n \<Rightarrow> Value ()),
                    c', [] @ map (flush_call c id') (takeWhile ok D @ take 1 (dropWhile ok D)))"
    and res: "\<forall>key. resident c' key
                = cleaned (PageKey id' ` set (takeWhile ok D @ take 1 (dropWhile ok D))) c key"
    unfolding idxs_def using distinct_iota by auto
  have inj: "PageKey id' a \<in> PageKey id' ` A \<longleftrightarrow> a \<in> A" for a A by auto
  show ?thesis
    unfolding D_def[symmetric]
  proof (intro conjI allI impI)
    assume all: "\<forall>i \<in> set D. \<not> fails on_flush (flush_call c id' i)"
    then have tw: "takeWhile ok D = D" "dropWhile ok D = []" by (simp_all add: ok_def)
    have r: "\<forall>key. resident c' key = cleaned (PageKey id' ` set D) c key"
      using res unfolding tw by simp
    have "\<forall>i \<in> set D. \<not> flush_pending c' id' i"
      using cleaned_not_pending[OF r] by auto
    then show "\<exists>c'. Cache_flush c id' sz on_flush = Some (Value (), c', map (flush_call c id') D)
                 \<and> (\<forall>key. resident c' key = cleaned (PageKey id' ` set D) c key)
                 \<and> (\<forall>i \<in> set D. \<not> flush_pending c' id' i)"
      using lp r unfolding run tw by (intro exI[of _ c']) simp
  next
    fix before i after err
    assume h: "D = before @ i # after
            \<and> (\<forall>j \<in> set before. \<not> fails on_flush (flush_call c id' j))
            \<and> answer on_flush (flush_call c id' i) = Inl err"
    then have nok: "\<not> ok i" and okb: "\<And>j. j \<in> set before \<Longrightarrow> ok j"
      by (simp_all add: ok_def fails_def)
    have tw: "takeWhile ok D = before" "dropWhile ok D = i # after"
      using nok okb h by (simp_all add: takeWhile_append2 dropWhile_append2)
    have r: "\<forall>key. resident c' key = cleaned (PageKey id' ` set (before @ [i])) c key"
      using res unfolding tw by simp
    have vis: "\<forall>j \<in> set (before @ [i]). \<not> flush_pending c' id' j"
      using cleaned_not_pending[OF r] by auto
    have "\<forall>j \<in> set after. flush_pending c' id' j"
    proof
      fix j assume j: "j \<in> set after"
      then have "j \<notin> set (before @ [i])" using dD h by auto
      then have "PageKey id' j \<notin> PageKey id' ` set (before @ [i])" using inj by simp
      then have "flush_pending c' id' j = flush_pending c id' j"
        using uncleaned_pending[OF r] by blast
      moreover have "j \<in> set D" using j h by simp
      ultimately show "flush_pending c' id' j" using D by simp
    qed
    then show "\<exists>c'. Cache_flush c id' sz on_flush
                    = Some (Failure err, c', map (flush_call c id') (before @ [i]))
                 \<and> (\<forall>key. resident c' key = cleaned (PageKey id' ` set (before @ [i])) c key)
                 \<and> \<not> flush_pending c' id' i
                 \<and> (\<forall>j \<in> set before. \<not> flush_pending c' id' j)
                 \<and> (\<forall>j \<in> set after. flush_pending c' id' j)"
      using lp r vis h unfolding run tw by (intro exI[of _ c']) simp
  qed
qed


theorem flush_clears_dirty_before_on_flush_witness:
  "cache_wf \<lparr>m_lru = [(1, \<lparr>m_key = PageKey 1 0, m_data = [1, 2, 3, 4], m_size = 0x10000004\<rparr>),
                (2, \<lparr>m_key = PageKey 1 1, m_data = [5, 6, 0, 0], m_size = 0x10000002\<rparr>),
                (3, \<lparr>m_key = PageKey 1 2, m_data = [7, 8, 9, 0], m_size = 0x10000003\<rparr>)],
       m_table = [(PageKey 1 0, 1), (PageKey 1 1, 2), (PageKey 1 2, 3)],
       m_queue = [], m_orphaned = [], m_page_size = 4, m_max_pages = 4\<rparr>
   \<and> buffers_sized \<lparr>m_lru = [(1, \<lparr>m_key = PageKey 1 0, m_data = [1, 2, 3, 4], m_size = 0x10000004\<rparr>),
                (2, \<lparr>m_key = PageKey 1 1, m_data = [5, 6, 0, 0], m_size = 0x10000002\<rparr>),
                (3, \<lparr>m_key = PageKey 1 2, m_data = [7, 8, 9, 0], m_size = 0x10000003\<rparr>)],
       m_table = [(PageKey 1 0, 1), (PageKey 1 1, 2), (PageKey 1 2, 3)],
       m_queue = [], m_orphaned = [], m_page_size = 4, m_max_pages = 4\<rparr>
   \<and> m_queue \<lparr>m_lru = [(1, \<lparr>m_key = PageKey 1 0, m_data = [1, 2, 3, 4], m_size = 0x10000004\<rparr>),
                (2, \<lparr>m_key = PageKey 1 1, m_data = [5, 6, 0, 0], m_size = 0x10000002\<rparr>),
                (3, \<lparr>m_key = PageKey 1 2, m_data = [7, 8, 9, 0], m_size = 0x10000003\<rparr>)],
       m_table = [(PageKey 1 0, 1), (PageKey 1 1, 2), (PageKey 1 2, 3)],
       m_queue = [], m_orphaned = [], m_page_size = 4, m_max_pages = 4\<rparr> = []
   \<and> m_page_size \<lparr>m_lru = [(1, \<lparr>m_key = PageKey 1 0, m_data = [1, 2, 3, 4], m_size = 0x10000004\<rparr>),
                (2, \<lparr>m_key = PageKey 1 1, m_data = [5, 6, 0, 0], m_size = 0x10000002\<rparr>),
                (3, \<lparr>m_key = PageKey 1 2, m_data = [7, 8, 9, 0], m_size = 0x10000003\<rparr>)],
       m_table = [(PageKey 1 0, 1), (PageKey 1 1, 2), (PageKey 1 2, 3)],
       m_queue = [], m_orphaned = [], m_page_size = 4, m_max_pages = 4\<rparr> \<noteq> 0
   \<and> flush_pages \<lparr>m_lru = [(1, \<lparr>m_key = PageKey 1 0, m_data = [1, 2, 3, 4], m_size = 0x10000004\<rparr>),
                (2, \<lparr>m_key = PageKey 1 1, m_data = [5, 6, 0, 0], m_size = 0x10000002\<rparr>),
                (3, \<lparr>m_key = PageKey 1 2, m_data = [7, 8, 9, 0], m_size = 0x10000003\<rparr>)],
       m_table = [(PageKey 1 0, 1), (PageKey 1 1, 2), (PageKey 1 2, 3)],
       m_queue = [], m_orphaned = [], m_page_size = 4, m_max_pages = 4\<rparr> 1 12 = [0] @ 1 # [2]
   \<and> \<not> fails (push_fail_at 4 5) (flush_call \<lparr>m_lru = [(1, \<lparr>m_key = PageKey 1 0, m_data = [1, 2, 3, 4], m_size = 0x10000004\<rparr>),
                (2, \<lparr>m_key = PageKey 1 1, m_data = [5, 6, 0, 0], m_size = 0x10000002\<rparr>),
                (3, \<lparr>m_key = PageKey 1 2, m_data = [7, 8, 9, 0], m_size = 0x10000003\<rparr>)],
       m_table = [(PageKey 1 0, 1), (PageKey 1 1, 2), (PageKey 1 2, 3)],
       m_queue = [], m_orphaned = [], m_page_size = 4, m_max_pages = 4\<rparr> 1 0)
   \<and> answer (push_fail_at 4 5) (flush_call \<lparr>m_lru = [(1, \<lparr>m_key = PageKey 1 0, m_data = [1, 2, 3, 4], m_size = 0x10000004\<rparr>),
                (2, \<lparr>m_key = PageKey 1 1, m_data = [5, 6, 0, 0], m_size = 0x10000002\<rparr>),
                (3, \<lparr>m_key = PageKey 1 2, m_data = [7, 8, 9, 0], m_size = 0x10000003\<rparr>)],
       m_table = [(PageKey 1 0, 1), (PageKey 1 1, 2), (PageKey 1 2, 3)],
       m_queue = [], m_orphaned = [], m_page_size = 4, m_max_pages = 4\<rparr> 1 1) = Inl 5
   \<and> (\<exists>c'. Cache_flush \<lparr>m_lru = [(1, \<lparr>m_key = PageKey 1 0, m_data = [1, 2, 3, 4], m_size = 0x10000004\<rparr>),
                (2, \<lparr>m_key = PageKey 1 1, m_data = [5, 6, 0, 0], m_size = 0x10000002\<rparr>),
                (3, \<lparr>m_key = PageKey 1 2, m_data = [7, 8, 9, 0], m_size = 0x10000003\<rparr>)],
       m_table = [(PageKey 1 0, 1), (PageKey 1 1, 2), (PageKey 1 2, 3)],
       m_queue = [], m_orphaned = [], m_page_size = 4, m_max_pages = 4\<rparr> 1 12 (push_fail_at 4 5)
              = Some (Failure 5, c', [(PageKey 1 0, [1, 2, 3, 4], 0), (PageKey 1 1, [5, 6], 4)])
           \<and> \<not> flush_pending c' 1 0 \<and> \<not> flush_pending c' 1 1 \<and> flush_pending c' 1 2)
   \<and> \<not> fails push_ok (flush_call \<lparr>m_lru = [(1, \<lparr>m_key = PageKey 1 0, m_data = [1, 2, 3, 4], m_size = 0x10000004\<rparr>),
                (2, \<lparr>m_key = PageKey 1 1, m_data = [5, 6, 0, 0], m_size = 0x10000002\<rparr>),
                (3, \<lparr>m_key = PageKey 1 2, m_data = [7, 8, 9, 0], m_size = 0x10000003\<rparr>)],
       m_table = [(PageKey 1 0, 1), (PageKey 1 1, 2), (PageKey 1 2, 3)],
       m_queue = [], m_orphaned = [], m_page_size = 4, m_max_pages = 4\<rparr> 1 0)
   \<and> \<not> fails push_ok (flush_call \<lparr>m_lru = [(1, \<lparr>m_key = PageKey 1 0, m_data = [1, 2, 3, 4], m_size = 0x10000004\<rparr>),
                (2, \<lparr>m_key = PageKey 1 1, m_data = [5, 6, 0, 0], m_size = 0x10000002\<rparr>),
                (3, \<lparr>m_key = PageKey 1 2, m_data = [7, 8, 9, 0], m_size = 0x10000003\<rparr>)],
       m_table = [(PageKey 1 0, 1), (PageKey 1 1, 2), (PageKey 1 2, 3)],
       m_queue = [], m_orphaned = [], m_page_size = 4, m_max_pages = 4\<rparr> 1 1)
   \<and> \<not> fails push_ok (flush_call \<lparr>m_lru = [(1, \<lparr>m_key = PageKey 1 0, m_data = [1, 2, 3, 4], m_size = 0x10000004\<rparr>),
                (2, \<lparr>m_key = PageKey 1 1, m_data = [5, 6, 0, 0], m_size = 0x10000002\<rparr>),
                (3, \<lparr>m_key = PageKey 1 2, m_data = [7, 8, 9, 0], m_size = 0x10000003\<rparr>)],
       m_table = [(PageKey 1 0, 1), (PageKey 1 1, 2), (PageKey 1 2, 3)],
       m_queue = [], m_orphaned = [], m_page_size = 4, m_max_pages = 4\<rparr> 1 2)
   \<and> (\<exists>c'. Cache_flush \<lparr>m_lru = [(1, \<lparr>m_key = PageKey 1 0, m_data = [1, 2, 3, 4], m_size = 0x10000004\<rparr>),
                (2, \<lparr>m_key = PageKey 1 1, m_data = [5, 6, 0, 0], m_size = 0x10000002\<rparr>),
                (3, \<lparr>m_key = PageKey 1 2, m_data = [7, 8, 9, 0], m_size = 0x10000003\<rparr>)],
       m_table = [(PageKey 1 0, 1), (PageKey 1 1, 2), (PageKey 1 2, 3)],
       m_queue = [], m_orphaned = [], m_page_size = 4, m_max_pages = 4\<rparr> 1 12 push_ok
              = Some (Value (), c', [(PageKey 1 0, [1, 2, 3, 4], 0), (PageKey 1 1, [5, 6], 4),
                                    (PageKey 1 2, [7, 8, 9], 8)])
           \<and> \<not> flush_pending c' 1 0 \<and> \<not> flush_pending c' 1 1 \<and> \<not> flush_pending c' 1 2)"
proof -
  let ?C = "\<lparr>m_lru = [(1, \<lparr>m_key = PageKey 1 0, m_data = [1, 2, 3, 4], m_size = 0x10000004\<rparr>),
                (2, \<lparr>m_key = PageKey 1 1, m_data = [5, 6, 0, 0], m_size = 0x10000002\<rparr>),
                (3, \<lparr>m_key = PageKey 1 2, m_data = [7, 8, 9, 0], m_size = 0x10000003\<rparr>)],
       m_table = [(PageKey 1 0, 1), (PageKey 1 1, 2), (PageKey 1 2, 3)],
       m_queue = [], m_orphaned = [], m_page_size = 4, m_max_pages = 4\<rparr>"
  have wf: "cache_wf ?C" by (simp add: cache_wf_def)
  have bs: "buffers_sized ?C" by (simp add: buffers_sized_def)
  have q: "m_queue ?C = []" by simp
  have P: "m_page_size ?C \<noteq> 0" by simp
  have pages: "flush_pages ?C 1 12 = [0] @ 1 # [2]" by code_simp
  have c0: "flush_call ?C 1 0 = (PageKey 1 0, [1, 2, 3, 4], 0)" by code_simp
  have c1: "flush_call ?C 1 1 = (PageKey 1 1, [5, 6], 4)" by code_simp
  have c2: "flush_call ?C 1 2 = (PageKey 1 2, [7, 8, 9], 8)" by code_simp
  have f0: "\<not> fails (push_fail_at 4 5) (flush_call ?C 1 0)"
    unfolding c0 by (simp add: fails_def answer_def push_fail_at_def)
  have f1: "answer (push_fail_at 4 5) (flush_call ?C 1 1) = Inl 5"
    unfolding c1 by (simp add: answer_def push_fail_at_def)
  have ok: "\<not> fails push_ok (flush_call ?C 1 0)" "\<not> fails push_ok (flush_call ?C 1 1)"
    "\<not> fails push_ok (flush_call ?C 1 2)"
    by (simp_all add: fails_def answer_def push_ok_def split: prod.splits)
  note T = flush_clears_dirty_before_on_flush[OF wf bs q P, of 1 12]
  have "\<exists>c'. Cache_flush ?C 1 12 (push_fail_at 4 5)
              = Some (Failure 5, c', map (flush_call ?C 1) ([0] @ [1]))
           \<and> \<not> flush_pending c' 1 1 \<and> (\<forall>j \<in> set [0]. \<not> flush_pending c' 1 j)
           \<and> (\<forall>j \<in> set [2]. flush_pending c' 1 j)"
  proof -
    have prem: "flush_pages ?C 1 12 = [0] @ 1 # [2]
        \<and> (\<forall>j \<in> set [0]. \<not> fails (push_fail_at 4 5) (flush_call ?C 1 j))
        \<and> answer (push_fail_at 4 5) (flush_call ?C 1 1) = Inl 5"
      using pages f0 f1 by simp
    from T[of "push_fail_at 4 5", THEN conjunct2, THEN spec, THEN spec, THEN spec, THEN spec, THEN mp, OF prem]
    show ?thesis by blast
  qed
  then have a: "\<exists>c'. Cache_flush ?C 1 12 (push_fail_at 4 5)
              = Some (Failure 5, c', [(PageKey 1 0, [1, 2, 3, 4], 0), (PageKey 1 1, [5, 6], 4)])
           \<and> \<not> flush_pending c' 1 0 \<and> \<not> flush_pending c' 1 1 \<and> flush_pending c' 1 2"
    unfolding append.simps list.map c0 c1 by auto
  have "\<exists>c'. Cache_flush ?C 1 12 push_ok
              = Some (Value (), c', map (flush_call ?C 1) (flush_pages ?C 1 12))
           \<and> (\<forall>i \<in> set (flush_pages ?C 1 12). \<not> flush_pending c' 1 i)"
  proof -
    have prem: "\<forall>i \<in> set (flush_pages ?C 1 12). \<not> fails push_ok (flush_call ?C 1 i)"
      unfolding pages using ok by simp
    from T[of push_ok, THEN conjunct1, THEN mp, OF prem]
    show ?thesis by blast
  qed
  then have b: "\<exists>c'. Cache_flush ?C 1 12 push_ok
              = Some (Value (), c', [(PageKey 1 0, [1, 2, 3, 4], 0), (PageKey 1 1, [5, 6], 4),
                                    (PageKey 1 2, [7, 8, 9], 8)])
           \<and> \<not> flush_pending c' 1 0 \<and> \<not> flush_pending c' 1 1 \<and> \<not> flush_pending c' 1 2"
    unfolding pages append.simps list.map c0 c1 c2 by auto
  show ?thesis using wf bs q P pages f0 f1 a ok b by blast
qed

text \<open>
  C1 as stated fails: \<^verbatim>\<open>on_flush\<close> fails for the one dirty page, the flush returns the
  error, and the dirty flag of the page is clear.
\<close>

theorem flush_failure_leaves_page_clean:
  "Cache_flush
     \<lparr>m_lru = [(1, \<lparr>m_key = PageKey 1 0, m_data = [1, 2, 3, 4], m_size = 0x10000004\<rparr>)],
       m_table = [(PageKey 1 0, 1)], m_queue = [], m_orphaned = [],
       m_page_size = 4, m_max_pages = 2\<rparr> 1 4 (push_fail 5)
     = Some (Failure 5,
       \<lparr>m_lru = [(1, \<lparr>m_key = PageKey 1 0, m_data = [1, 2, 3, 4], m_size = 4\<rparr>)],
       m_table = [(PageKey 1 0, 1)], m_queue = [], m_orphaned = [],
       m_page_size = 4, m_max_pages = 2\<rparr>,
       [(PageKey 1 0, [1, 2, 3, 4], 0)])
   \<and> resident
       \<lparr>m_lru = [(1, \<lparr>m_key = PageKey 1 0, m_data = [1, 2, 3, 4], m_size = 0x10000004\<rparr>)],
       m_table = [(PageKey 1 0, 1)], m_queue = [], m_orphaned = [],
       m_page_size = 4, m_max_pages = 2\<rparr> (PageKey 1 0)
     = Some \<lparr>m_key = PageKey 1 0, m_data = [1, 2, 3, 4], m_size = 0x10000004\<rparr>
   \<and> Page_is_dirty \<lparr>m_key = PageKey 1 0, m_data = [1, 2, 3, 4], m_size = 0x10000004\<rparr>
   \<and> resident
       \<lparr>m_lru = [(1, \<lparr>m_key = PageKey 1 0, m_data = [1, 2, 3, 4], m_size = 4\<rparr>)],
       m_table = [(PageKey 1 0, 1)], m_queue = [], m_orphaned = [],
       m_page_size = 4, m_max_pages = 2\<rparr> (PageKey 1 0)
     = Some \<lparr>m_key = PageKey 1 0, m_data = [1, 2, 3, 4], m_size = 4\<rparr>
   \<and> \<not> Page_is_dirty \<lparr>m_key = PageKey 1 0, m_data = [1, 2, 3, 4], m_size = 4\<rparr>"
  by code_simp

section \<open>What enters the orphan sink and what stays\<close>

lemma evict_orphans_grow:
  assumes "evict n c = Some c'"
  shows "\<exists>added. m_orphaned c' = m_orphaned c @ added"
  using assms
proof (induction n arbitrary: c)
  case 0
  then show ?case by simp
next
  case (Suc n)
  obtain h page where lst: "last (m_lru c) = (h, page)" by (cases "last (m_lru c)")
  from Suc.prems obtain c2 where ev: "evict n c2 = Some c'"
    and o2: "\<exists>a. m_orphaned c2 = m_orphaned c @ a"
    using lst by (auto simp add: Let_def split: if_splits)
  from Suc.IH[OF ev] o2 show ?case by auto
qed

lemma admit_orphans_grow:
  assumes "admit c = Some c'"
  shows "\<exists>added. m_orphaned c' = m_orphaned c @ added"
  using assms evict_orphans_grow by (auto simp add: admit_def split: if_splits)

lemma read_page_orphans_grow:
  assumes "read_page on_miss id' offset start index (c, out, tot, misses) = Some (r, (c', rest))"
  shows "\<exists>added. m_orphaned c' = m_orphaned c @ added"
proof -
  have inst: "\<exists>added. m_orphaned c2 = m_orphaned c @ added"
    if "admit (install (c\<lparr>m_queue := q\<rparr>) key data len) = Some c2" for q key data len c2
    using admit_orphans_grow[OF that] by (simp add: install_def Let_def)
  have copy: "m_orphaned c' = m_orphaned c0"
    if "read_from_page c0 h lo out tot = Some (c', out', tot1)" for c0 h lo out' tot1
    using read_from_page_orphans[OF that] .
  show ?thesis
    using assms
    unfolding read_page_def Let_def
    by (auto split: result.splits option.splits sum.splits prod.splits)
       (metis inst copy append_Nil2)+
qed

lemma write_page_orphans_grow:
  assumes "write_page id' inp offset start index (c, tot) = Some (r, (c', tot1))"
  shows "\<exists>added. m_orphaned c' = m_orphaned c @ added"
  using assms
proof (cases rule: write_page_cases)
  case stop
  then show ?thesis by simp
next
  case (go c1 h page spn lo n page' lru)
  have "m_orphaned c1 = m_orphaned c" using go(1) by auto
  then show ?thesis using admit_orphans_grow[OF go(5)] by simp
qed

lemma admit_exact:
  assumes wf: "cache_wf c"
  shows "\<exists>c'. admit c = Some c' \<and> m_lru c' = take (unat (m_max_pages c)) (m_lru c)
           \<and> m_orphaned c' = m_orphaned c
                @ filter (\<lambda>(h, page). Page_is_dirty page) (rev (drop (unat (m_max_pages c)) (m_lru c)))"
proof (cases "length (m_table c) > unat (m_max_pages c)")
  case False
  then have "admit c = Some c" by (simp add: admit_def)
  moreover have "length (m_lru c) \<le> unat (m_max_pages c)"
    using False wf_lengths[OF wf] by simp
  ultimately show ?thesis by simp
next
  case True
  define n where "n = length (m_table c) - unat (m_max_pages c)"
  have L: "length (m_table c) = length (m_lru c)" using wf_lengths[OF wf] .
  have adm: "admit c = evict n c" using True by (simp add: admit_def n_def)
  have "n \<le> length (m_lru c)" using L by (simp add: n_def)
  from evict_effect[OF this] obtain c' where c': "evict n c = Some c'"
    "m_lru c' = take (length (m_lru c) - n) (m_lru c)"
    "m_orphaned c' = m_orphaned c @ filter (\<lambda>(h, page). Page_is_dirty page)
        (rev (drop (length (m_lru c) - n) (m_lru c)))"
    by blast
  have k: "length (m_lru c) - n = unat (m_max_pages c)" using True L by (simp add: n_def)
  show ?thesis using adm c' unfolding k by simp
qed

lemma admit_keeps_dirty:
  assumes wf: "cache_wf c" and adm: "admit c = Some c'"
    and mem: "(h, p) \<in> set (m_lru c) \<union> set (m_orphaned c)" and d: "Page_is_dirty p"
  shows "(h, p) \<in> set (m_lru c') \<union> set (m_orphaned c')"
proof -
  define M where "M = unat (m_max_pages c)"
  from admit_exact[OF wf] adm have
    l: "m_lru c' = take M (m_lru c)"
    and o: "m_orphaned c' = m_orphaned c @ filter (\<lambda>(h, page). Page_is_dirty page) (rev (drop M (m_lru c)))"
    by (simp_all add: M_def)
  have "set (m_lru c) = set (take M (m_lru c)) \<union> set (drop M (m_lru c))"
    by (metis append_take_drop_id set_append)
  then show ?thesis using mem d unfolding l o by auto
qed


lemma read_from_page_touch:
  assumes "read_from_page c h lo out tot = Some (c', out', tot1)"
  shows "\<exists>lru. touch h (m_lru c) = Some lru \<and> c' = c\<lparr>m_lru := lru\<rparr>"
  using assms by (auto simp add: read_from_page_def split: option.splits)

lemma read_page_cases:
  assumes step: "read_page on_miss id' offset start index (c, out, tot, misses)
                   = Some (r, (c', out', tot', misses'))"
  obtains (stop) q where "c' = c\<lparr>m_queue := q\<rparr>"
      "misses' = misses \<or> misses' = misses @ [index * m_page_size c]"
      "\<And>u. r \<noteq> Value u"
  | (hit) h lru where "map_of (m_table c) (PageKey id' index) = Some h"
      "touch h (m_lru c) = Some lru" "c' = c\<lparr>m_lru := lru\<rparr>" "misses' = misses"
  | (miss) bytes len c2 h lru where "map_of (m_table c) (PageKey id' index) = None"
      "admit (install (c\<lparr>m_queue := emplace (PageKey id' index) Unresolved (m_queue c)\<rparr>)
                (PageKey id' index)
                (span_store (replicate (unat (m_page_size c)) 0) bytes) len) = Some c2"
      "touch h (m_lru c2) = Some lru" "c' = c2\<lparr>m_lru := lru\<rparr>"
      "misses' = misses @ [index * m_page_size c]"
proof -
  define key where "key = PageKey id' index"
  show ?thesis
  proof (cases "queued c key")
    case (Failure err)
    then have "c' = c\<lparr>m_queue := m_queue c\<rparr>" "misses' = misses" "r = Failure err"
      using step by (simp_all add: read_page_def Let_def key_def)
    then show ?thesis using stop by blast
  next
    case (Suspended k)
    then have "c' = c\<lparr>m_queue := m_queue c\<rparr>" "misses' = misses" "r = Suspended k"
      using step by (simp_all add: read_page_def Let_def key_def)
    then show ?thesis using stop by blast
  next
    case (Value u)
    show ?thesis
    proof (cases "map_of (m_table c) key")
      case (Some h)
      then obtain lo where
        "read_from_page c h lo out tot = Some (c', out', tot')" "misses' = misses"
        using step Value by (auto simp add: read_page_def Let_def key_def)
      then show ?thesis using read_from_page_touch hit Some unfolding key_def by blast
    next
      case None
      define c1 where "c1 = c\<lparr>m_queue := emplace key Unresolved (m_queue c)\<rparr>"
      show ?thesis
      proof (cases "on_miss (m_page_size c) (index * m_page_size c)")
        case (Inl err)
        then have "c' = c\<lparr>m_queue := AList.delete key (emplace key Unresolved (m_queue c))\<rparr>"
          "misses' = misses @ [index * m_page_size c]" "r = Failure err"
          using step Value None by (simp_all add: read_page_def Let_def key_def)
        then show ?thesis using stop by blast
      next
        case (Inr b)
        obtain bytes len where b: "b = (bytes, len)" by (cases b)
        define data where "data = span_store (replicate (unat (m_page_size c)) 0) bytes"
        from step Value None Inr b obtain c2 h lo where
          a: "admit (install c1 key data len) = Some c2"
          and t: "map_of (m_table c2) key = Some h"
          and rd: "read_from_page c2 h lo out tot = Some (c', out', tot')"
          and ms: "misses' = misses @ [index * m_page_size c]"
          by (auto simp add: read_page_def Let_def key_def c1_def data_def
              split: option.splits)
        from read_from_page_touch[OF rd] obtain lru where
          "touch h (m_lru c2) = Some lru" "c' = c2\<lparr>m_lru := lru\<rparr>" by blast
        then show ?thesis
          using miss[of bytes len c2 h lru] None a ms
          unfolding key_def c1_def data_def by blast
      qed
    qed
  qed
qed


lemma read_page_keeps_dirty:
  assumes step: "read_page on_miss id' offset start index (c, out, tot, misses)
                   = Some (r, (c', out', tot', misses'))"
    and wf: "cache_wf c" and bs: "buffers_sized c"
    and mem: "(h, p) \<in> set (m_lru c) \<union> set (m_orphaned c)" and d: "Page_is_dirty p"
  shows "(h, p) \<in> set (m_lru c') \<union> set (m_orphaned c')"
  using step
proof (cases rule: read_page_cases)
  case (stop q)
  then show ?thesis using mem by simp
next
  case (hit h0 lru)
  have "set lru = set (m_lru c)"
    using touch_set[OF _ hit(2)] wf by (simp add: cache_wf_def)
  then show ?thesis using mem hit(3) by simp
next
  case (miss bytes len c2 h0 lru)
  define c1 where "c1 = c\<lparr>m_queue := emplace (PageKey id' index) Unresolved (m_queue c)\<rparr>"
  define ci where "ci = install c1 (PageKey id' index)
      (span_store (replicate (unat (m_page_size c)) 0) bytes) len"
  have inv1: "cache_wf c1" "buffers_sized c1"
    using wf bs by (simp_all add: c1_def queue_irrelevant)
  have "map_of (m_table c1) (PageKey id' index) = None" using miss(1) by (simp add: c1_def)
  moreover have "length (span_store (replicate (unat (m_page_size c)) 0) bytes)
                   = unat (m_page_size c1)"
    by (simp add: span_store_length c1_def)
  ultimately have wfi: "cache_wf ci" "buffers_sized ci"
    using install_inv[OF inv1] by (simp_all add: ci_def)
  have "(h, p) \<in> set (m_lru ci) \<union> set (m_orphaned ci)"
    using mem by (auto simp add: ci_def install_def Let_def c1_def)
  from admit_keeps_dirty[OF wfi(1) miss(2)[folded c1_def, folded ci_def] this d]
  have m2: "(h, p) \<in> set (m_lru c2) \<union> set (m_orphaned c2)" .
  have "cache_wf c2" using admit_inv[OF miss(2)[folded c1_def, folded ci_def] wfi] by simp
  then have "set lru = set (m_lru c2)"
    using touch_set[OF _ miss(3)] by (simp add: cache_wf_def)
  then show ?thesis using m2 miss(4) by simp
qed

lemma write_page_keeps_dirty:
  assumes step: "write_page id' inp offset start index (c, tot) = Some (r, (c', tot1))"
    and wf: "cache_wf c" and bs: "buffers_sized c"
    and mem: "(h, p) \<in> set (m_lru c) \<union> set (m_orphaned c)" and d: "Page_is_dirty p"
  shows "\<exists>p'. (h, p') \<in> set (m_lru c') \<union> set (m_orphaned c')
           \<and> m_key p' = m_key p \<and> Page_is_dirty p'"
  using step
proof (cases rule: write_page_cases)
  case stop
  then show ?thesis using mem d by auto
next
  case (go c1 h0 page spn lo n page' lru)
  have inv1: "cache_wf c1 \<and> buffers_sized c1"
  proof (cases "c1 = c")
    case True
    then show ?thesis using wf bs by simp
  next
    case False
    then have miss: "map_of (m_table c) (PageKey id' index) = None"
      and c1: "c1 = c\<lparr>m_lru := (new_node c, \<lparr>m_key = PageKey id' index,
                     m_data = replicate (unat (m_page_size c)) 0, m_size = 0\<rparr>) # m_lru c,
                   m_table := emplace (PageKey id' index) (new_node c) (m_table c)\<rparr>"
      using go(1) by simp_all
    have "cache_wf c1"
      unfolding c1 by (rule insert_front_wf[OF wf miss]) simp
    moreover have "buffers_sized c1"
      using bs by (simp add: c1 buffers_sized_def)
    ultimately show ?thesis by simp
  qed
  have mem1: "(h, p) \<in> set (m_lru c1) \<union> set (m_orphaned c1)" using mem go(1) by auto
  define pd where "pd = Page_set_dirty page' True"
  define cu where "cu = c1\<lparr>m_lru := AList.update h0 pd (m_lru c1)\<rparr>"
  have k: "m_key pd = m_key page"
    and l: "length (m_data pd) = length (m_data page)"
    and dd: "Page_is_dirty pd"
    using Page_write_fields[OF go(3)] by (simp_all add: Page_set_dirty_fields pd_def)
  have dl: "distinct (map fst (m_lru c1))" using inv1 by (simp add: cache_wf_def)
  have su: "set (m_lru cu) = insert (h0, pd) (set (m_lru c1) - {(h0, page)})"
    using update_same_key_set[OF dl go(2)] by (simp add: cu_def)
  have wfu: "cache_wf cu" unfolding cu_def using inv1 by (intro update_same_key_wf[OF _ go(2) k]) simp
  have bsu: "buffers_sized cu" unfolding cu_def
    using inv1 by (intro update_same_key_buffers[OF _ _ go(2) l]) simp_all
  have tu: "touch h0 (m_lru cu) = Some lru" using go(4) by (simp add: cu_def pd_def)
  have sl: "set lru = set (m_lru cu)"
    using touch_set[OF _ tu] wfu by (simp add: cache_wf_def)
  define ct where "ct = c1\<lparr>m_lru := lru\<rparr>"
  have ct: "ct = cu\<lparr>m_lru := lru\<rparr>" by (simp add: ct_def cu_def)
  have wft: "cache_wf ct" unfolding ct using touch_wf[OF wfu tu] .
  obtain p1 where p1: "(h, p1) \<in> set (m_lru ct) \<union> set (m_orphaned ct)"
    "m_key p1 = m_key p" "Page_is_dirty p1"
  proof (cases "(h, p) = (h0, page)")
    case True
    then have "(h, pd) \<in> set (m_lru ct)" using su sl by (simp add: ct_def)
    then show ?thesis using that[of pd] k dd True by simp
  next
    case False
    then have "(h, p) \<in> set (m_lru ct) \<union> set (m_orphaned ct)"
      using mem1 su sl by (auto simp add: ct_def cu_def)
    then show ?thesis using that[of p] d by simp
  qed
  from admit_keeps_dirty[OF wft go(5)[folded ct_def] p1(1,3)] p1(2,3)
  show ?thesis by blast
qed


lemma run_orphans_dirty:
  assumes "orphans_dirty c" and "run operation c = Some c'"
  shows "orphans_dirty c'"
proof (cases operation)
  case (Read id' out offset on_miss)
  then obtain r rest where "Cache_read c id' out offset on_miss = Some (r, (c', rest))"
    using assms(2) by auto
  then obtain start indices where
    "read_loop on_miss id' offset start indices (c, out, 0, []) = Some (r, (c', rest))"
    by (auto simp add: Cache_read_def Let_def split: if_splits)
  from read_loop_orphans_dirty[OF this assms(1)] show ?thesis .
next
  case (Write id' inp offset)
  then obtain r tot where "Cache_write c id' inp offset = Some (r, (c', tot))"
    using assms(2) by auto
  then obtain start indices where
    "write_loop id' inp offset start indices (c, 0) = Some (r, (c', tot))"
    by (auto simp add: Cache_write_def Let_def split: if_splits)
  from write_loop_orphans_dirty[OF this assms(1)] show ?thesis .
next
  case (Flush id' sz on_flush)
  then obtain r fl where "Cache_flush c id' sz on_flush = Some (r, (c', fl))"
    using assms(2) by auto
  then obtain indices where
    "flush_loop on_flush id' indices (c, []) = Some (r, (c', fl))"
    by (auto simp add: Cache_flush_def Let_def split: if_splits)
  from flush_loop_orphans[OF this] assms(1) show ?thesis by (simp add: orphans_dirty_def)
next
  case GetOrphanPages
  then show ?thesis using assms by (auto simp add: Cache_get_orphan_pages_def orphans_dirty_def)
next
  case Invalidate
  then show ?thesis using assms by (auto simp add: Cache_invalidate_def orphans_dirty_def)
next
  case (SetPageSize n)
  then show ?thesis using assms by (auto simp add: Cache_set_page_size_def orphans_dirty_def)
next
  case (SetMaxPages n)
  then show ?thesis using assms by (auto simp add: Cache_set_max_pages_def orphans_dirty_def)
qed

lemma Cache_read_orphans_grow:
  assumes "Cache_read c id' out offset on_miss = Some (r, (c', rest))"
  shows "\<exists>added. m_orphaned c' = m_orphaned c @ added"
proof -
  from assms obtain start indices where lp:
    "read_loop on_miss id' offset start indices (c, out, 0, []) = Some (r, (c', rest))"
    by (auto simp add: Cache_read_def Let_def split: if_splits)
  show ?thesis
  proof (rule read_loop_preserves[where I = "\<lambda>c1. \<exists>added. m_orphaned c1 = m_orphaned c @ added",
          OF _ lp])
    show "\<exists>added. m_orphaned c = m_orphaned c @ added" by (rule exI[of _ "[]"]) simp
  next
    fix index c1 out1 tot1 misses1 r1 c2 rest1
    assume "read_page on_miss id' offset start index (c1, out1, tot1, misses1) = Some (r1, (c2, rest1))"
      and "\<exists>added. m_orphaned c1 = m_orphaned c @ added"
    then show "\<exists>added. m_orphaned c2 = m_orphaned c @ added"
      using read_page_orphans_grow[of on_miss id' offset start index c1 out1 tot1 misses1 r1 c2 rest1]
      by auto
  qed
qed

lemma Cache_write_orphans_grow:
  assumes "Cache_write c id' inp offset = Some (r, (c', tot))"
  shows "\<exists>added. m_orphaned c' = m_orphaned c @ added"
proof -
  from assms obtain start indices where lp:
    "write_loop id' inp offset start indices (c, 0) = Some (r, (c', tot))"
    by (auto simp add: Cache_write_def Let_def split: if_splits)
  show ?thesis
  proof (rule write_loop_preserves[where I = "\<lambda>c1. \<exists>added. m_orphaned c1 = m_orphaned c @ added",
          OF _ lp])
    show "\<exists>added. m_orphaned c = m_orphaned c @ added" by (rule exI[of _ "[]"]) simp
  next
    fix index c1 tot1 r1 c2 tot2
    assume "write_page id' inp offset start index (c1, tot1) = Some (r1, (c2, tot2))"
      and "\<exists>added. m_orphaned c1 = m_orphaned c @ added"
    then show "\<exists>added. m_orphaned c2 = m_orphaned c @ added"
      using write_page_orphans_grow[of id' inp offset start index c1 tot1 r1 c2 tot2]
      by auto
  qed
qed

lemma Cache_flush_orphans:
  assumes "Cache_flush c id' sz on_flush = Some (r, (c', fl))"
  shows "m_orphaned c' = m_orphaned c"
proof -
  from assms obtain indices where
    "flush_loop on_flush id' indices (c, []) = Some (r, (c', fl))"
    by (auto simp add: Cache_flush_def Let_def split: if_splits)
  from flush_loop_orphans[OF this] show ?thesis .
qed

lemma Cache_read_keeps_dirty:
  assumes rd: "Cache_read c id' out offset on_miss = Some (r, (c', rest))"
    and wf: "cache_wf c" and bs: "buffers_sized c"
    and mem: "(h, p) \<in> set (m_lru c) \<union> set (m_orphaned c)" and d: "Page_is_dirty p"
  shows "(h, p) \<in> set (m_lru c') \<union> set (m_orphaned c')"
proof -
  from rd obtain start indices where lp:
    "read_loop on_miss id' offset start indices (c, out, 0, []) = Some (r, (c', rest))"
    by (auto simp add: Cache_read_def Let_def split: if_splits)
  have st: "cache_wf c2 \<and> buffers_sized c2 \<and> (h, p) \<in> set (m_lru c2) \<union> set (m_orphaned c2)"
    if "read_page on_miss id' offset start index (c1, out1, tot1, misses1) = Some (r1, (c2, rest1))"
      "cache_wf c1 \<and> buffers_sized c1 \<and> (h, p) \<in> set (m_lru c1) \<union> set (m_orphaned c1)"
    for index c1 out1 tot1 misses1 r1 c2 rest1
  proof -
    obtain o2 t2 m2 where r1: "rest1 = (o2, t2, m2)" by (cases rest1)
    show ?thesis
      using read_page_inv[OF that(1)] read_page_keeps_dirty[OF that(1)[unfolded r1] _ _ _ d] that(2)
      by simp
  qed
  have i0: "cache_wf c \<and> buffers_sized c \<and> (h, p) \<in> set (m_lru c) \<union> set (m_orphaned c)"
    using wf bs mem by blast
  have "cache_wf c' \<and> buffers_sized c' \<and> (h, p) \<in> set (m_lru c') \<union> set (m_orphaned c')"
    by (rule read_loop_preserves[where
          I = "\<lambda>c1. cache_wf c1 \<and> buffers_sized c1 \<and> (h, p) \<in> set (m_lru c1) \<union> set (m_orphaned c1)",
          OF st lp i0])
  then show ?thesis by simp
qed

lemma write_loop_keeps_dirty:
  assumes lp: "write_loop id' inp offset start indices (c, tot) = Some (r, (c', tot'))"
    and wf: "cache_wf c" and bs: "buffers_sized c"
    and mem: "(h, p) \<in> set (m_lru c) \<union> set (m_orphaned c)" and d: "Page_is_dirty p"
  shows "cache_wf c' \<and> buffers_sized c'
       \<and> (\<exists>p'. (h, p') \<in> set (m_lru c') \<union> set (m_orphaned c')
              \<and> m_key p' = m_key p \<and> Page_is_dirty p')"
proof -
  define I where "I = (\<lambda>c1. cache_wf c1 \<and> buffers_sized c1
       \<and> (\<exists>p'. (h, p') \<in> set (m_lru c1) \<union> set (m_orphaned c1)
              \<and> m_key p' = m_key p \<and> Page_is_dirty p'))"
  have st: "I c2"
    if "write_page id' inp offset start index (c1, tot1) = Some (r1, (c2, tot2))" "I c1"
    for index c1 tot1 r1 c2 tot2
  proof -
    from that(2) obtain p1 where i1: "cache_wf c1" "buffers_sized c1"
      "(h, p1) \<in> set (m_lru c1) \<union> set (m_orphaned c1)" "m_key p1 = m_key p" "Page_is_dirty p1"
      unfolding I_def by blast
    from write_page_keeps_dirty[OF that(1) i1(1,2,3,5)] i1(4)
      write_page_inv[OF that(1) i1(1,2)]
    show ?thesis unfolding I_def by auto
  qed
  have "I c" unfolding I_def using wf bs mem d by blast
  from write_loop_preserves[where I = I, OF st lp this] show ?thesis unfolding I_def .
qed

lemma Cache_write_keeps_dirty:
  assumes wr: "Cache_write c id' inp offset = Some (r, (c', tot))"
    and wf: "cache_wf c" and bs: "buffers_sized c"
    and mem: "(h, p) \<in> set (m_lru c) \<union> set (m_orphaned c)" and d: "Page_is_dirty p"
  shows "\<exists>p'. (h, p') \<in> set (m_lru c') \<union> set (m_orphaned c')
           \<and> m_key p' = m_key p \<and> Page_is_dirty p'"
proof -
  from wr obtain start indices where lp:
    "write_loop id' inp offset start indices (c, 0) = Some (r, (c', tot))"
    by (auto simp add: Cache_write_def Let_def split: if_splits)
  from write_loop_keeps_dirty[OF lp wf bs mem d] show ?thesis by simp
qed


text \<open>
  C5 (as amended). Every operation of the cache that returns keeps the orphan sink a list
  of dirty pages. Nothing holds of the keys in the sink. An entry of the sink stays where
  it is, unchanged, until \<^verbatim>\<open>get_orphan_pages\<close> returns the whole list and leaves the sink
  empty: \<^verbatim>\<open>read\<close> and \<^verbatim>\<open>write\<close> only append to the sink, and \<^verbatim>\<open>flush\<close>, \<^verbatim>\<open>invalidate\<close>,
  \<^verbatim>\<open>set_page_size\<close> and \<^verbatim>\<open>set_max_pages\<close> do not change it. In a well-formed cache a dirty
  resident page is never dropped by a \<^verbatim>\<open>read\<close> or a \<^verbatim>\<open>write\<close>: afterwards its node is
  resident or in the sink, with the same page after a read and with a dirty page of the
  same key after a write; and the admission step that both run keeps the first
  \<open>max_pages\<close> pages of the list, appends the dirty ones among the others to the sink in
  the order of eviction, and drops the clean ones.
\<close>

theorem orphans_stay_dirty:
  assumes "orphans_dirty c" and "run operation c = Some c'"
  shows "orphans_dirty c'
       \<and> (case operation of
             Read id' out offset on_miss \<Rightarrow> \<exists>added. m_orphaned c' = m_orphaned c @ added
           | Write id' inp offset \<Rightarrow> \<exists>added. m_orphaned c' = m_orphaned c @ added
           | GetOrphanPages \<Rightarrow>
               fst (Cache_get_orphan_pages c) = m_orphaned c \<and> m_orphaned c' = []
           | _ \<Rightarrow> m_orphaned c' = m_orphaned c)
       \<and> (cache_wf c \<and> buffers_sized c \<longrightarrow>
            (\<forall>id' out offset on_miss h p.
               operation = Read id' out offset on_miss
               \<and> (h, p) \<in> set (m_lru c) \<and> Page_is_dirty p \<longrightarrow>
               (h, p) \<in> set (m_lru c') \<union> set (m_orphaned c'))
          \<and> (\<forall>id' inp offset h p.
               operation = Write id' inp offset
               \<and> (h, p) \<in> set (m_lru c) \<and> Page_is_dirty p \<longrightarrow>
               (\<exists>p'. (h, p') \<in> set (m_lru c') \<union> set (m_orphaned c')
                    \<and> m_key p' = m_key p \<and> Page_is_dirty p'))
          \<and> (\<exists>c2. admit c = Some c2
                 \<and> m_lru c2 = take (unat (m_max_pages c)) (m_lru c)
                 \<and> m_orphaned c2 = m_orphaned c
                      @ filter (\<lambda>(h, page). Page_is_dirty page)
                          (rev (drop (unat (m_max_pages c)) (m_lru c)))))"
proof (intro conjI impI allI)
  show "orphans_dirty c'" using run_orphans_dirty[OF assms] .
  show "case operation of
             Read id' out offset on_miss \<Rightarrow> \<exists>added. m_orphaned c' = m_orphaned c @ added
           | Write id' inp offset \<Rightarrow> \<exists>added. m_orphaned c' = m_orphaned c @ added
           | GetOrphanPages \<Rightarrow>
               fst (Cache_get_orphan_pages c) = m_orphaned c \<and> m_orphaned c' = []
           | _ \<Rightarrow> m_orphaned c' = m_orphaned c"
  proof (cases operation)
    case (Read id' out offset on_miss)
    then obtain r rest where "Cache_read c id' out offset on_miss = Some (r, (c', rest))"
      using assms(2) by auto
    from Cache_read_orphans_grow[OF this] show ?thesis using Read by simp
  next
    case (Write id' inp offset)
    then obtain r tot where "Cache_write c id' inp offset = Some (r, (c', tot))"
      using assms(2) by auto
    from Cache_write_orphans_grow[OF this] show ?thesis using Write by simp
  next
    case (Flush id' sz on_flush)
    then obtain r fl where "Cache_flush c id' sz on_flush = Some (r, (c', fl))"
      using assms(2) by auto
    from Cache_flush_orphans[OF this] show ?thesis using Flush by simp
  next
    case GetOrphanPages
    then show ?thesis using assms(2) by (auto simp add: Cache_get_orphan_pages_def)
  next
    case Invalidate
    then show ?thesis using assms(2) by (auto simp add: Cache_invalidate_def)
  next
    case (SetPageSize n)
    then show ?thesis using assms(2) by (auto simp add: Cache_set_page_size_def)
  next
    case (SetMaxPages n)
    then show ?thesis using assms(2) by (auto simp add: Cache_set_max_pages_def)
  qed
next
  fix id' out offset on_miss h p
  assume wf: "cache_wf c \<and> buffers_sized c"
    and a: "operation = Read id' out offset on_miss \<and> (h, p) \<in> set (m_lru c) \<and> Page_is_dirty p"
  then obtain r rest where rd: "Cache_read c id' out offset on_miss = Some (r, (c', rest))"
    using assms(2) by auto
  show "(h, p) \<in> set (m_lru c') \<union> set (m_orphaned c')"
    using Cache_read_keeps_dirty[OF rd, of h p] wf a by simp
next
  fix id' inp offset h p
  assume wf: "cache_wf c \<and> buffers_sized c"
    and a: "operation = Write id' inp offset \<and> (h, p) \<in> set (m_lru c) \<and> Page_is_dirty p"
  then obtain r tot where wr: "Cache_write c id' inp offset = Some (r, (c', tot))"
    using assms(2) by auto
  show "\<exists>p'. (h, p') \<in> set (m_lru c') \<union> set (m_orphaned c')
           \<and> m_key p' = m_key p \<and> Page_is_dirty p'"
    using Cache_write_keeps_dirty[OF wr, of h p] wf a by simp
next
  assume "cache_wf c \<and> buffers_sized c"
  then show "\<exists>c2. admit c = Some c2
                 \<and> m_lru c2 = take (unat (m_max_pages c)) (m_lru c)
                 \<and> m_orphaned c2 = m_orphaned c
                      @ filter (\<lambda>(h, page). Page_is_dirty page)
                          (rev (drop (unat (m_max_pages c)) (m_lru c)))"
    using admit_exact[of c] by simp
qed

theorem orphans_stay_dirty_witness:
  "orphans_dirty
     \<lparr>m_lru = [(1, \<lparr>m_key = PageKey 1 0, m_data = [1, 0, 0, 0], m_size = 0x10000001\<rparr>)],
        m_table = [(PageKey 1 0, 1)], m_queue = [], m_orphaned = [],
        m_page_size = 4, m_max_pages = 1\<rparr>
   \<and> cache_wf
     \<lparr>m_lru = [(1, \<lparr>m_key = PageKey 1 0, m_data = [1, 0, 0, 0], m_size = 0x10000001\<rparr>)],
        m_table = [(PageKey 1 0, 1)], m_queue = [], m_orphaned = [],
        m_page_size = 4, m_max_pages = 1\<rparr>
   \<and> buffers_sized
     \<lparr>m_lru = [(1, \<lparr>m_key = PageKey 1 0, m_data = [1, 0, 0, 0], m_size = 0x10000001\<rparr>)],
        m_table = [(PageKey 1 0, 1)], m_queue = [], m_orphaned = [],
        m_page_size = 4, m_max_pages = 1\<rparr>
   \<and> (1, \<lparr>m_key = PageKey 1 0, m_data = [1, 0, 0, 0], m_size = 0x10000001\<rparr>) \<in> set (m_lru
     \<lparr>m_lru = [(1, \<lparr>m_key = PageKey 1 0, m_data = [1, 0, 0, 0], m_size = 0x10000001\<rparr>)],
        m_table = [(PageKey 1 0, 1)], m_queue = [], m_orphaned = [],
        m_page_size = 4, m_max_pages = 1\<rparr>)
   \<and> Page_is_dirty \<lparr>m_key = PageKey 1 0, m_data = [1, 0, 0, 0], m_size = 0x10000001\<rparr>
   \<and> run (Write 1 [2] 4)
     \<lparr>m_lru = [(1, \<lparr>m_key = PageKey 1 0, m_data = [1, 0, 0, 0], m_size = 0x10000001\<rparr>)],
        m_table = [(PageKey 1 0, 1)], m_queue = [], m_orphaned = [],
        m_page_size = 4, m_max_pages = 1\<rparr>
     = Some
     \<lparr>m_lru = [(2, \<lparr>m_key = PageKey 1 1, m_data = [2, 0, 0, 0], m_size = 0x10000001\<rparr>)],
        m_table = [(PageKey 1 1, 2)], m_queue = [],
        m_orphaned = [(1, \<lparr>m_key = PageKey 1 0, m_data = [1, 0, 0, 0], m_size = 0x10000001\<rparr>)],
        m_page_size = 4, m_max_pages = 1\<rparr>
   \<and> orphans_dirty
     \<lparr>m_lru = [(2, \<lparr>m_key = PageKey 1 1, m_data = [2, 0, 0, 0], m_size = 0x10000001\<rparr>)],
        m_table = [(PageKey 1 1, 2)], m_queue = [],
        m_orphaned = [(1, \<lparr>m_key = PageKey 1 0, m_data = [1, 0, 0, 0], m_size = 0x10000001\<rparr>)],
        m_page_size = 4, m_max_pages = 1\<rparr>
   \<and> (\<exists>added. m_orphaned
     \<lparr>m_lru = [(2, \<lparr>m_key = PageKey 1 1, m_data = [2, 0, 0, 0], m_size = 0x10000001\<rparr>)],
        m_table = [(PageKey 1 1, 2)], m_queue = [],
        m_orphaned = [(1, \<lparr>m_key = PageKey 1 0, m_data = [1, 0, 0, 0], m_size = 0x10000001\<rparr>)],
        m_page_size = 4, m_max_pages = 1\<rparr> = m_orphaned
     \<lparr>m_lru = [(1, \<lparr>m_key = PageKey 1 0, m_data = [1, 0, 0, 0], m_size = 0x10000001\<rparr>)],
        m_table = [(PageKey 1 0, 1)], m_queue = [], m_orphaned = [],
        m_page_size = 4, m_max_pages = 1\<rparr> @ added)
   \<and> (\<exists>p'. (1, p') \<in> set (m_lru
     \<lparr>m_lru = [(2, \<lparr>m_key = PageKey 1 1, m_data = [2, 0, 0, 0], m_size = 0x10000001\<rparr>)],
        m_table = [(PageKey 1 1, 2)], m_queue = [],
        m_orphaned = [(1, \<lparr>m_key = PageKey 1 0, m_data = [1, 0, 0, 0], m_size = 0x10000001\<rparr>)],
        m_page_size = 4, m_max_pages = 1\<rparr>) \<union> set (m_orphaned
     \<lparr>m_lru = [(2, \<lparr>m_key = PageKey 1 1, m_data = [2, 0, 0, 0], m_size = 0x10000001\<rparr>)],
        m_table = [(PageKey 1 1, 2)], m_queue = [],
        m_orphaned = [(1, \<lparr>m_key = PageKey 1 0, m_data = [1, 0, 0, 0], m_size = 0x10000001\<rparr>)],
        m_page_size = 4, m_max_pages = 1\<rparr>)
        \<and> m_key p' = m_key \<lparr>m_key = PageKey 1 0, m_data = [1, 0, 0, 0], m_size = 0x10000001\<rparr> \<and> Page_is_dirty p')
   \<and> run (Read 1 [0] 4 (fetch_ok [9, 9, 9, 9]))
     \<lparr>m_lru = [(1, \<lparr>m_key = PageKey 1 0, m_data = [1, 0, 0, 0], m_size = 0x10000001\<rparr>)],
        m_table = [(PageKey 1 0, 1)], m_queue = [], m_orphaned = [],
        m_page_size = 4, m_max_pages = 1\<rparr>
     = Some
     \<lparr>m_lru = [(2, \<lparr>m_key = PageKey 1 1, m_data = [9, 9, 9, 9], m_size = 4\<rparr>)],
        m_table = [(PageKey 1 1, 2)], m_queue = [],
        m_orphaned = [(1, \<lparr>m_key = PageKey 1 0, m_data = [1, 0, 0, 0], m_size = 0x10000001\<rparr>)],
        m_page_size = 4, m_max_pages = 1\<rparr>
   \<and> orphans_dirty
     \<lparr>m_lru = [(2, \<lparr>m_key = PageKey 1 1, m_data = [9, 9, 9, 9], m_size = 4\<rparr>)],
        m_table = [(PageKey 1 1, 2)], m_queue = [],
        m_orphaned = [(1, \<lparr>m_key = PageKey 1 0, m_data = [1, 0, 0, 0], m_size = 0x10000001\<rparr>)],
        m_page_size = 4, m_max_pages = 1\<rparr>
   \<and> (1, \<lparr>m_key = PageKey 1 0, m_data = [1, 0, 0, 0], m_size = 0x10000001\<rparr>) \<in> set (m_lru
     \<lparr>m_lru = [(2, \<lparr>m_key = PageKey 1 1, m_data = [9, 9, 9, 9], m_size = 4\<rparr>)],
        m_table = [(PageKey 1 1, 2)], m_queue = [],
        m_orphaned = [(1, \<lparr>m_key = PageKey 1 0, m_data = [1, 0, 0, 0], m_size = 0x10000001\<rparr>)],
        m_page_size = 4, m_max_pages = 1\<rparr>) \<union> set (m_orphaned
     \<lparr>m_lru = [(2, \<lparr>m_key = PageKey 1 1, m_data = [9, 9, 9, 9], m_size = 4\<rparr>)],
        m_table = [(PageKey 1 1, 2)], m_queue = [],
        m_orphaned = [(1, \<lparr>m_key = PageKey 1 0, m_data = [1, 0, 0, 0], m_size = 0x10000001\<rparr>)],
        m_page_size = 4, m_max_pages = 1\<rparr>)
   \<and> (\<exists>c2. admit
     \<lparr>m_lru = [(1, \<lparr>m_key = PageKey 1 0, m_data = [1, 0, 0, 0], m_size = 0x10000001\<rparr>)],
        m_table = [(PageKey 1 0, 1)], m_queue = [], m_orphaned = [],
        m_page_size = 4, m_max_pages = 1\<rparr> = Some c2)"
proof -
  have a: "orphans_dirty
     \<lparr>m_lru = [(1, \<lparr>m_key = PageKey 1 0, m_data = [1, 0, 0, 0], m_size = 0x10000001\<rparr>)],
        m_table = [(PageKey 1 0, 1)], m_queue = [], m_orphaned = [],
        m_page_size = 4, m_max_pages = 1\<rparr>" by code_simp
  have b: "run (Write 1 [2] 4)
     \<lparr>m_lru = [(1, \<lparr>m_key = PageKey 1 0, m_data = [1, 0, 0, 0], m_size = 0x10000001\<rparr>)],
        m_table = [(PageKey 1 0, 1)], m_queue = [], m_orphaned = [],
        m_page_size = 4, m_max_pages = 1\<rparr>
     = Some
     \<lparr>m_lru = [(2, \<lparr>m_key = PageKey 1 1, m_data = [2, 0, 0, 0], m_size = 0x10000001\<rparr>)],
        m_table = [(PageKey 1 1, 2)], m_queue = [],
        m_orphaned = [(1, \<lparr>m_key = PageKey 1 0, m_data = [1, 0, 0, 0], m_size = 0x10000001\<rparr>)],
        m_page_size = 4, m_max_pages = 1\<rparr>" by code_simp
  have b': "run (Read 1 [0] 4 (fetch_ok [9, 9, 9, 9]))
     \<lparr>m_lru = [(1, \<lparr>m_key = PageKey 1 0, m_data = [1, 0, 0, 0], m_size = 0x10000001\<rparr>)],
        m_table = [(PageKey 1 0, 1)], m_queue = [], m_orphaned = [],
        m_page_size = 4, m_max_pages = 1\<rparr>
     = Some
     \<lparr>m_lru = [(2, \<lparr>m_key = PageKey 1 1, m_data = [9, 9, 9, 9], m_size = 4\<rparr>)],
        m_table = [(PageKey 1 1, 2)], m_queue = [],
        m_orphaned = [(1, \<lparr>m_key = PageKey 1 0, m_data = [1, 0, 0, 0], m_size = 0x10000001\<rparr>)],
        m_page_size = 4, m_max_pages = 1\<rparr>" by code_simp
  have wf: "cache_wf
     \<lparr>m_lru = [(1, \<lparr>m_key = PageKey 1 0, m_data = [1, 0, 0, 0], m_size = 0x10000001\<rparr>)],
        m_table = [(PageKey 1 0, 1)], m_queue = [], m_orphaned = [],
        m_page_size = 4, m_max_pages = 1\<rparr> \<and> buffers_sized
     \<lparr>m_lru = [(1, \<lparr>m_key = PageKey 1 0, m_data = [1, 0, 0, 0], m_size = 0x10000001\<rparr>)],
        m_table = [(PageKey 1 0, 1)], m_queue = [], m_orphaned = [],
        m_page_size = 4, m_max_pages = 1\<rparr>" by (simp add: cache_wf_def buffers_sized_def)
  have m: "Write 1 [2] 4 = Write 1 [2] 4 \<and> (1, \<lparr>m_key = PageKey 1 0, m_data = [1, 0, 0, 0], m_size = 0x10000001\<rparr>) \<in> set (m_lru
     \<lparr>m_lru = [(1, \<lparr>m_key = PageKey 1 0, m_data = [1, 0, 0, 0], m_size = 0x10000001\<rparr>)],
        m_table = [(PageKey 1 0, 1)], m_queue = [], m_orphaned = [],
        m_page_size = 4, m_max_pages = 1\<rparr>) \<and> Page_is_dirty \<lparr>m_key = PageKey 1 0, m_data = [1, 0, 0, 0], m_size = 0x10000001\<rparr>"
    by (simp add: Page_is_dirty_def dirty_bit_def)
  have m': "Read 1 [0] 4 (fetch_ok [9, 9, 9, 9]) = Read 1 [0] 4 (fetch_ok [9, 9, 9, 9])
     \<and> (1, \<lparr>m_key = PageKey 1 0, m_data = [1, 0, 0, 0], m_size = 0x10000001\<rparr>) \<in> set (m_lru
     \<lparr>m_lru = [(1, \<lparr>m_key = PageKey 1 0, m_data = [1, 0, 0, 0], m_size = 0x10000001\<rparr>)],
        m_table = [(PageKey 1 0, 1)], m_queue = [], m_orphaned = [],
        m_page_size = 4, m_max_pages = 1\<rparr>) \<and> Page_is_dirty \<lparr>m_key = PageKey 1 0, m_data = [1, 0, 0, 0], m_size = 0x10000001\<rparr>"
    using m by simp
  note T = orphans_stay_dirty[OF a b]
  note T' = orphans_stay_dirty[OF a b']
  have t1: "orphans_dirty
     \<lparr>m_lru = [(2, \<lparr>m_key = PageKey 1 1, m_data = [2, 0, 0, 0], m_size = 0x10000001\<rparr>)],
        m_table = [(PageKey 1 1, 2)], m_queue = [],
        m_orphaned = [(1, \<lparr>m_key = PageKey 1 0, m_data = [1, 0, 0, 0], m_size = 0x10000001\<rparr>)],
        m_page_size = 4, m_max_pages = 1\<rparr>" using T by (rule conjunct1)
  have t2: "\<exists>added. m_orphaned
     \<lparr>m_lru = [(2, \<lparr>m_key = PageKey 1 1, m_data = [2, 0, 0, 0], m_size = 0x10000001\<rparr>)],
        m_table = [(PageKey 1 1, 2)], m_queue = [],
        m_orphaned = [(1, \<lparr>m_key = PageKey 1 0, m_data = [1, 0, 0, 0], m_size = 0x10000001\<rparr>)],
        m_page_size = 4, m_max_pages = 1\<rparr> = m_orphaned
     \<lparr>m_lru = [(1, \<lparr>m_key = PageKey 1 0, m_data = [1, 0, 0, 0], m_size = 0x10000001\<rparr>)],
        m_table = [(PageKey 1 0, 1)], m_queue = [], m_orphaned = [],
        m_page_size = 4, m_max_pages = 1\<rparr> @ added" using T[THEN conjunct2, THEN conjunct1] by simp
  have t3: "\<exists>p'. (1, p') \<in> set (m_lru
     \<lparr>m_lru = [(2, \<lparr>m_key = PageKey 1 1, m_data = [2, 0, 0, 0], m_size = 0x10000001\<rparr>)],
        m_table = [(PageKey 1 1, 2)], m_queue = [],
        m_orphaned = [(1, \<lparr>m_key = PageKey 1 0, m_data = [1, 0, 0, 0], m_size = 0x10000001\<rparr>)],
        m_page_size = 4, m_max_pages = 1\<rparr>) \<union> set (m_orphaned
     \<lparr>m_lru = [(2, \<lparr>m_key = PageKey 1 1, m_data = [2, 0, 0, 0], m_size = 0x10000001\<rparr>)],
        m_table = [(PageKey 1 1, 2)], m_queue = [],
        m_orphaned = [(1, \<lparr>m_key = PageKey 1 0, m_data = [1, 0, 0, 0], m_size = 0x10000001\<rparr>)],
        m_page_size = 4, m_max_pages = 1\<rparr>)
        \<and> m_key p' = m_key \<lparr>m_key = PageKey 1 0, m_data = [1, 0, 0, 0], m_size = 0x10000001\<rparr> \<and> Page_is_dirty p'"
    using T[THEN conjunct2, THEN conjunct2, THEN mp, OF wf, THEN conjunct2, THEN conjunct1,
        THEN spec, THEN spec, THEN spec, THEN spec, THEN spec, THEN mp, OF m] .
  have t4: "orphans_dirty
     \<lparr>m_lru = [(2, \<lparr>m_key = PageKey 1 1, m_data = [9, 9, 9, 9], m_size = 4\<rparr>)],
        m_table = [(PageKey 1 1, 2)], m_queue = [],
        m_orphaned = [(1, \<lparr>m_key = PageKey 1 0, m_data = [1, 0, 0, 0], m_size = 0x10000001\<rparr>)],
        m_page_size = 4, m_max_pages = 1\<rparr>" using T' by (rule conjunct1)
  have t5: "(1, \<lparr>m_key = PageKey 1 0, m_data = [1, 0, 0, 0], m_size = 0x10000001\<rparr>) \<in> set (m_lru
     \<lparr>m_lru = [(2, \<lparr>m_key = PageKey 1 1, m_data = [9, 9, 9, 9], m_size = 4\<rparr>)],
        m_table = [(PageKey 1 1, 2)], m_queue = [],
        m_orphaned = [(1, \<lparr>m_key = PageKey 1 0, m_data = [1, 0, 0, 0], m_size = 0x10000001\<rparr>)],
        m_page_size = 4, m_max_pages = 1\<rparr>) \<union> set (m_orphaned
     \<lparr>m_lru = [(2, \<lparr>m_key = PageKey 1 1, m_data = [9, 9, 9, 9], m_size = 4\<rparr>)],
        m_table = [(PageKey 1 1, 2)], m_queue = [],
        m_orphaned = [(1, \<lparr>m_key = PageKey 1 0, m_data = [1, 0, 0, 0], m_size = 0x10000001\<rparr>)],
        m_page_size = 4, m_max_pages = 1\<rparr>)"
    using T'[THEN conjunct2, THEN conjunct2, THEN mp, OF wf, THEN conjunct1,
        THEN spec, THEN spec, THEN spec, THEN spec, THEN spec, THEN spec, THEN mp, OF m'] .
  have t6: "\<exists>c2. admit
     \<lparr>m_lru = [(1, \<lparr>m_key = PageKey 1 0, m_data = [1, 0, 0, 0], m_size = 0x10000001\<rparr>)],
        m_table = [(PageKey 1 0, 1)], m_queue = [], m_orphaned = [],
        m_page_size = 4, m_max_pages = 1\<rparr> = Some c2"
    using T[THEN conjunct2, THEN conjunct2, THEN mp, OF wf, THEN conjunct2, THEN conjunct2]
    by blast
  show ?thesis using a b b' wf m t1 t2 t3 t4 t5 t6 by blast
qed

text \<open>
  C5 as stated fails. With room for one page, the bytes 1, 2, 3 and 4 are written to
  pages 0, 1, 0 and 1 of file 1. After the third write page 0 is resident and has an entry
  in the sink; after the fourth the sink holds two entries for page 0.
\<close>

theorem orphan_of_resident_key:
  "Cache_write
     \<lparr>m_lru = [], m_table = [], m_queue = [], m_orphaned = [], m_page_size = 4, m_max_pages = 1\<rparr> 1 [1] 0
     = Some (Value 1,
     \<lparr>m_lru = [(1, \<lparr>m_key = PageKey 1 0, m_data = [1, 0, 0, 0], m_size = 0x10000001\<rparr>)], m_table = [(PageKey 1 0, 1)], m_queue = [],
        m_orphaned = [],
        m_page_size = 4, m_max_pages = 1\<rparr>, 1)
   \<and> Cache_write
     \<lparr>m_lru = [(1, \<lparr>m_key = PageKey 1 0, m_data = [1, 0, 0, 0], m_size = 0x10000001\<rparr>)], m_table = [(PageKey 1 0, 1)], m_queue = [],
        m_orphaned = [],
        m_page_size = 4, m_max_pages = 1\<rparr> 1 [2] 4
     = Some (Value 1,
     \<lparr>m_lru = [(2, \<lparr>m_key = PageKey 1 1, m_data = [2, 0, 0, 0], m_size = 0x10000001\<rparr>)], m_table = [(PageKey 1 1, 2)], m_queue = [],
        m_orphaned = [(1, \<lparr>m_key = PageKey 1 0, m_data = [1, 0, 0, 0], m_size = 0x10000001\<rparr>)],
        m_page_size = 4, m_max_pages = 1\<rparr>, 1)
   \<and> Cache_write
     \<lparr>m_lru = [(2, \<lparr>m_key = PageKey 1 1, m_data = [2, 0, 0, 0], m_size = 0x10000001\<rparr>)], m_table = [(PageKey 1 1, 2)], m_queue = [],
        m_orphaned = [(1, \<lparr>m_key = PageKey 1 0, m_data = [1, 0, 0, 0], m_size = 0x10000001\<rparr>)],
        m_page_size = 4, m_max_pages = 1\<rparr> 1 [3] 0
     = Some (Value 1,
     \<lparr>m_lru = [(3, \<lparr>m_key = PageKey 1 0, m_data = [3, 0, 0, 0], m_size = 0x10000001\<rparr>)], m_table = [(PageKey 1 0, 3)], m_queue = [],
        m_orphaned = [(1, \<lparr>m_key = PageKey 1 0, m_data = [1, 0, 0, 0], m_size = 0x10000001\<rparr>),
           (2, \<lparr>m_key = PageKey 1 1, m_data = [2, 0, 0, 0], m_size = 0x10000001\<rparr>)],
        m_page_size = 4, m_max_pages = 1\<rparr>, 1)
   \<and> resident
     \<lparr>m_lru = [(3, \<lparr>m_key = PageKey 1 0, m_data = [3, 0, 0, 0], m_size = 0x10000001\<rparr>)], m_table = [(PageKey 1 0, 3)], m_queue = [],
        m_orphaned = [(1, \<lparr>m_key = PageKey 1 0, m_data = [1, 0, 0, 0], m_size = 0x10000001\<rparr>),
           (2, \<lparr>m_key = PageKey 1 1, m_data = [2, 0, 0, 0], m_size = 0x10000001\<rparr>)],
        m_page_size = 4, m_max_pages = 1\<rparr> (PageKey 1 0)
     = Some \<lparr>m_key = PageKey 1 0, m_data = [3, 0, 0, 0], m_size = 0x10000001\<rparr>
   \<and> map (m_key \<circ> snd) (m_orphaned
     \<lparr>m_lru = [(3, \<lparr>m_key = PageKey 1 0, m_data = [3, 0, 0, 0], m_size = 0x10000001\<rparr>)], m_table = [(PageKey 1 0, 3)], m_queue = [],
        m_orphaned = [(1, \<lparr>m_key = PageKey 1 0, m_data = [1, 0, 0, 0], m_size = 0x10000001\<rparr>),
           (2, \<lparr>m_key = PageKey 1 1, m_data = [2, 0, 0, 0], m_size = 0x10000001\<rparr>)],
        m_page_size = 4, m_max_pages = 1\<rparr>) = [PageKey 1 0, PageKey 1 1]
   \<and> Cache_write
     \<lparr>m_lru = [(3, \<lparr>m_key = PageKey 1 0, m_data = [3, 0, 0, 0], m_size = 0x10000001\<rparr>)], m_table = [(PageKey 1 0, 3)], m_queue = [],
        m_orphaned = [(1, \<lparr>m_key = PageKey 1 0, m_data = [1, 0, 0, 0], m_size = 0x10000001\<rparr>),
           (2, \<lparr>m_key = PageKey 1 1, m_data = [2, 0, 0, 0], m_size = 0x10000001\<rparr>)],
        m_page_size = 4, m_max_pages = 1\<rparr> 1 [4] 4
     = Some (Value 1,
     \<lparr>m_lru = [(4, \<lparr>m_key = PageKey 1 1, m_data = [4, 0, 0, 0], m_size = 0x10000001\<rparr>)], m_table = [(PageKey 1 1, 4)], m_queue = [],
        m_orphaned = [(1, \<lparr>m_key = PageKey 1 0, m_data = [1, 0, 0, 0], m_size = 0x10000001\<rparr>),
           (2, \<lparr>m_key = PageKey 1 1, m_data = [2, 0, 0, 0], m_size = 0x10000001\<rparr>),
           (3, \<lparr>m_key = PageKey 1 0, m_data = [3, 0, 0, 0], m_size = 0x10000001\<rparr>)],
        m_page_size = 4, m_max_pages = 1\<rparr>, 1)
   \<and> map (m_key \<circ> snd) (m_orphaned
     \<lparr>m_lru = [(4, \<lparr>m_key = PageKey 1 1, m_data = [4, 0, 0, 0], m_size = 0x10000001\<rparr>)], m_table = [(PageKey 1 1, 4)], m_queue = [],
        m_orphaned = [(1, \<lparr>m_key = PageKey 1 0, m_data = [1, 0, 0, 0], m_size = 0x10000001\<rparr>),
           (2, \<lparr>m_key = PageKey 1 1, m_data = [2, 0, 0, 0], m_size = 0x10000001\<rparr>),
           (3, \<lparr>m_key = PageKey 1 0, m_data = [3, 0, 0, 0], m_size = 0x10000001\<rparr>)],
        m_page_size = 4, m_max_pages = 1\<rparr>) = [PageKey 1 0, PageKey 1 1, PageKey 1 0]"
  by code_simp

section \<open>The pages an operation works through\<close>





















lemma span_keys:
  assumes "m_key p \<notin> PageKey id' ` set (map (of_nat :: nat \<Rightarrow> usize) [s..<Suc l])"
  shows "\<not> (\<exists>j. s \<le> j \<and> j \<le> l \<and> m_key p = PageKey id' (of_nat j))"
proof
  assume "\<exists>j. s \<le> j \<and> j \<le> l \<and> m_key p = PageKey id' (of_nat j)"
  then obtain j where j: "s \<le> j" "j \<le> l" "m_key p = PageKey id' (of_nat j)" by blast
  then have "j \<in> set [s..<Suc l]" by auto
  then have "(of_nat j :: usize) \<in> set (map of_nat [s..<Suc l])" by (simp only: set_map image_eqI)
  then have "m_key p \<in> PageKey id' ` set (map (of_nat :: nat \<Rightarrow> usize) [s..<Suc l])"
    unfolding j(3) by (rule imageI)
  then show False using assms by simp
qed











end
